theory Spec2Isabelle
  imports Main "HOL-Library.Word" "HOL-Library.Multiset"
begin

section \<open>Machine integers and per-process state of process.c\<close>

text \<open>
  Every integer of process.c is a C \<^verbatim>\<open>int\<close>: 32 bits, two's complement. It is a
  \<^typ>\<open>32 word\<close> here; \<open>+\<close> wraps around, and the comparisons of the source are the
  signed ones, \<open><s\<close> and \<open>\<le>s\<close>. (ISO C leaves signed overflow undefined; the
  wrap-around is what the program does on the two's complement targets it is built for
  with gcc.)
\<close>

type_synonym cint = "32 word"

definition INT_MAX :: cint where
  "INT_MAX = 2147483647"

definition INT_MIN :: cint where
  "INT_MIN = - 2147483648"

text \<open>\<^verbatim>\<open>#define MAX_PEERS 128\<close>\<close>

definition MAX_PEERS :: cint where
  "MAX_PEERS = 128"

text \<open>
  \<^verbatim>\<open>typedef struct ReqEntry { int req_lc; int req_pid; struct ReqEntry *next; }\<close>:
  the linked list hanging off \<^verbatim>\<open>queue_head\<close> is a list of entries, the \<^verbatim>\<open>next\<close>
  pointer being the tail of the list.
\<close>

record ReqEntry =
  req_lc :: cint
  req_pid :: cint

text \<open>
  The globals of one process: \<^verbatim>\<open>N\<close>, \<^verbatim>\<open>my_pid\<close>, the Lamport clock \<^verbatim>\<open>lc\<close>, the request
  queue, and the two arrays \<^verbatim>\<open>int ack_lc[MAX_PEERS]\<close> and
  \<^verbatim>\<open>int releases_seen[MAX_PEERS]\<close>. The arrays are lists; \<open>arrays_ok\<close> says that they
  have the length the C declaration gives them.
\<close>

record peer =
  N :: cint
  my_pid :: cint
  lc :: cint
  queue_head :: "ReqEntry list"
  ack_lc :: "cint list"
  releases_seen :: "cint list"

definition arrays_ok :: "peer \<Rightarrow> bool" where
  "arrays_ok st = (length (ack_lc st) = unat MAX_PEERS \<and> length (releases_seen st) = unat MAX_PEERS)"

text \<open>
  The state at the start of \<^verbatim>\<open>main\<close>, once \<^verbatim>\<open>N\<close> and \<^verbatim>\<open>my_pid\<close> are read: the globals
  are zero-initialised, the queue is empty.
\<close>

definition init_peer :: "cint \<Rightarrow> cint \<Rightarrow> peer" where
  "init_peer n p = \<lparr> N = n, my_pid = p, lc = 0, queue_head = [],
     ack_lc = replicate (unat MAX_PEERS) 0, releases_seen = replicate (unat MAX_PEERS) 0 \<rparr>"

text \<open>
  An array access at an index outside the array is undefined behaviour in C. It is the
  result \<open>None\<close> here, so that every function that touches an array returns an option.
\<close>

definition arr_read :: "cint list \<Rightarrow> cint \<Rightarrow> cint option" where
  "arr_read xs i = (if 0 \<le>s i \<and> unat i < length xs then Some (xs ! unat i) else None)"

definition arr_write :: "cint list \<Rightarrow> cint \<Rightarrow> cint \<Rightarrow> cint list option" where
  "arr_write xs i v = (if 0 \<le>s i \<and> unat i < length xs then Some (xs[unat i := v]) else None)"

section \<open>Lamport clock\<close>

text \<open>
  \<^verbatim>\<open>int inc_lc(void) { lc++; int tmp = lc; return tmp; }\<close> (under the clock's mutex):
  the returned value and the new state.
\<close>

definition inc_lc :: "peer \<Rightarrow> cint \<times> peer" where
  "inc_lc st = (let st' = st\<lparr>lc := lc st + 1\<rparr> in (lc st', st'))"

text \<open>
  \<^verbatim>\<open>int update_lc_on_receive(int remote_lc) { if (remote_lc >= lc) lc = remote_lc + 1;
  int tmp = lc; return tmp; }\<close>
\<close>

definition update_lc_on_receive :: "cint \<Rightarrow> peer \<Rightarrow> cint \<times> peer" where
  "update_lc_on_receive remote_lc st =
     (let st' = (if lc st \<le>s remote_lc then st\<lparr>lc := remote_lc + 1\<rparr> else st)
      in (lc st', st'))"

section \<open>Request queue ordered by (req_lc, req_pid)\<close>

text \<open>
  \<^verbatim>\<open>queue_insert\<close>: the loop walks \<^verbatim>\<open>pp\<close> past every entry with a smaller \<^verbatim>\<open>req_lc\<close>, or
  the same \<^verbatim>\<open>req_lc\<close> and a smaller \<^verbatim>\<open>req_pid\<close>, and links the new entry in front of the
  first entry it stops at (or at the end).
\<close>

fun insert_entry :: "cint \<Rightarrow> cint \<Rightarrow> ReqEntry list \<Rightarrow> ReqEntry list" where
  "insert_entry l p [] = [\<lparr>req_lc = l, req_pid = p\<rparr>]"
| "insert_entry l p (e # es) =
     (if req_lc e <s l then e # insert_entry l p es
      else if req_lc e = l \<and> req_pid e <s p then e # insert_entry l p es
      else \<lparr>req_lc = l, req_pid = p\<rparr> # e # es)"

definition queue_insert :: "cint \<Rightarrow> cint \<Rightarrow> peer \<Rightarrow> peer" where
  "queue_insert l p st = st\<lparr>queue_head := insert_entry l p (queue_head st)\<rparr>"

text \<open>
  \<^verbatim>\<open>queue_remove\<close>: the loop unlinks the first entry whose two fields match and stops;
  without a match the list is left as it is.
\<close>

fun remove_entry :: "cint \<Rightarrow> cint \<Rightarrow> ReqEntry list \<Rightarrow> ReqEntry list" where
  "remove_entry l p [] = []"
| "remove_entry l p (e # es) =
     (if req_lc e = l \<and> req_pid e = p then es else e # remove_entry l p es)"

definition queue_remove :: "cint \<Rightarrow> cint \<Rightarrow> peer \<Rightarrow> peer" where
  "queue_remove l p st = st\<lparr>queue_head := remove_entry l p (queue_head st)\<rparr>"

text \<open>
  \<^verbatim>\<open>queue_head_is\<close>: \<^verbatim>\<open>queue_head && queue_head->req_lc == req_lc &&
  queue_head->req_pid == req_pid\<close>.
\<close>

definition queue_head_is :: "cint \<Rightarrow> cint \<Rightarrow> peer \<Rightarrow> bool" where
  "queue_head_is l p st =
     (case queue_head st of [] \<Rightarrow> False | e # _ \<Rightarrow> req_lc e = l \<and> req_pid e = p)"

section \<open>Acknowledgement table and release table\<close>

text \<open>
  \<^verbatim>\<open>void set_ack(int from, int value) { if (from < 0 || from >= MAX_PEERS) return;
  ack_lc[from] = value; }\<close>
\<close>

definition set_ack :: "cint \<Rightarrow> cint \<Rightarrow> peer \<Rightarrow> peer option" where
  "set_ack from v st =
     (if from <s 0 \<or> MAX_PEERS \<le>s from then Some st
      else map_option (\<lambda>a. st\<lparr>ack_lc := a\<rparr>) (arr_write (ack_lc st) from v))"

text \<open>
  \<^verbatim>\<open>all_acks_ge\<close>: \<^verbatim>\<open>for (int i = 0; i < N; ++i) if (ack_lc[i] < target_lc) return 0;
  return 1;\<close>. The loop runs over the indices \<open>0, ..., N - 1\<close> (none when \<open>N \<le> 0\<close>).
\<close>

fun acks_ge_loop :: "cint list \<Rightarrow> cint \<Rightarrow> nat list \<Rightarrow> bool option" where
  "acks_ge_loop a target_lc [] = Some True"
| "acks_ge_loop a target_lc (i # is) =
     (case arr_read a (of_nat i) of
        None \<Rightarrow> None
      | Some v \<Rightarrow> if v <s target_lc then Some False else acks_ge_loop a target_lc is)"

definition peer_indices :: "cint \<Rightarrow> nat list" where
  "peer_indices n = [0 ..< nat (sint n)]"

definition all_acks_ge :: "cint \<Rightarrow> peer \<Rightarrow> bool option" where
  "all_acks_ge target_lc st = acks_ge_loop (ack_lc st) target_lc (peer_indices (N st))"

text \<open>
  \<^verbatim>\<open>void inc_release_seen(int pid) { if (pid < 0 || pid >= MAX_PEERS) return;
  releases_seen[pid] += 1; }\<close>
\<close>

definition inc_release_seen :: "cint \<Rightarrow> peer \<Rightarrow> peer option" where
  "inc_release_seen pid st =
     (if pid <s 0 \<or> MAX_PEERS \<le>s pid then Some st
      else case arr_read (releases_seen st) pid of
             None \<Rightarrow> None
           | Some v \<Rightarrow> map_option (\<lambda>r. st\<lparr>releases_seen := r\<rparr>)
                         (arr_write (releases_seen st) pid (v + 1)))"

text \<open>
  \<^verbatim>\<open>int get_release_seen(int pid) { if (pid < 0 || pid >= MAX_PEERS) return 0;
  int v = releases_seen[pid]; return v; }\<close>
\<close>

definition get_release_seen :: "cint \<Rightarrow> peer \<Rightarrow> cint option" where
  "get_release_seen pid st =
     (if pid <s 0 \<or> MAX_PEERS \<le>s pid then Some 0 else arr_read (releases_seen st) pid)"

section \<open>The order of the queue\<close>

text \<open>
  The order the queue is kept in: ascending \<^verbatim>\<open>req_lc\<close>, ties broken by ascending
  \<^verbatim>\<open>req_pid\<close>, both compared as signed integers.
\<close>

definition entry_le :: "ReqEntry \<Rightarrow> ReqEntry \<Rightarrow> bool" where
  "entry_le a b = (req_lc a <s req_lc b \<or> (req_lc a = req_lc b \<and> req_pid a \<le>s req_pid b))"

definition queue_sorted :: "ReqEntry list \<Rightarrow> bool" where
  "queue_sorted q = sorted_wrt entry_le q"

text \<open>
  The minimum element of a queue under that order, computed by a scan of the whole list
  (\<open>None\<close> for the empty queue). This is the notion the specification of \<^verbatim>\<open>isHead\<close>
  refers to; \<^verbatim>\<open>queue_head_is\<close> itself only looks at the first entry.
\<close>

fun queue_min :: "ReqEntry list \<Rightarrow> ReqEntry option" where
  "queue_min [] = None"
| "queue_min (e # es) =
     (case queue_min es of
        None \<Rightarrow> Some e
      | Some m \<Rightarrow> if entry_le e m then Some e else Some m)"

section \<open>The lock cycle: do_request and do_wait\<close>

text \<open>
  The reset of the acknowledgement table at the start of \<^verbatim>\<open>do_request\<close>:
  \<^verbatim>\<open>for (int i = 0; i < N; ++i) ack_lc[i] = -1000000000; ack_lc[my_pid] = my_req_lc;\<close>
  Neither write is guarded in the source.
\<close>

fun reset_loop :: "cint list \<Rightarrow> nat list \<Rightarrow> cint list option" where
  "reset_loop a [] = Some a"
| "reset_loop a (i # is) =
     (case arr_write a (of_nat i) (- 1000000000) of
        None \<Rightarrow> None
      | Some a' \<Rightarrow> reset_loop a' is)"

definition reset_acks :: "cint \<Rightarrow> peer \<Rightarrow> peer option" where
  "reset_acks my_req_lc st =
     (case reset_loop (ack_lc st) (peer_indices (N st)) of
        None \<Rightarrow> None
      | Some a \<Rightarrow> map_option (\<lambda>a'. st\<lparr>ack_lc := a'\<rparr>) (arr_write a (my_pid st) my_req_lc))"

text \<open>
  \<^verbatim>\<open>do_wait\<close>: \<^verbatim>\<open>int seen = get_release_seen(other_pid); while (1) { usleep(100000);
  int now = get_release_seen(other_pid); if (now > seen) break; }\<close>

  The main thread does nothing but poll; the release table changes under it through the
  reader threads. The argument \<open>st\<close> is the state of the process when \<^verbatim>\<open>do_wait\<close> is
  entered, and \<open>sts\<close> lists the states of the process at the successive polls, as far as
  the execution has been observed. The result says at which poll the loop was left, or
  that it is still polling when the observation ends.
\<close>

datatype wait_result = Returned nat | Still_waiting | Bad_access

fun do_wait_loop :: "cint \<Rightarrow> cint \<Rightarrow> nat \<Rightarrow> peer list \<Rightarrow> wait_result" where
  "do_wait_loop other_pid seen k [] = Still_waiting"
| "do_wait_loop other_pid seen k (st # sts) =
     (case get_release_seen other_pid st of
        None \<Rightarrow> Bad_access
      | Some now \<Rightarrow>
          if seen <s now then Returned (Suc k) else do_wait_loop other_pid seen (Suc k) sts)"

definition do_wait :: "cint \<Rightarrow> peer \<Rightarrow> peer list \<Rightarrow> wait_result" where
  "do_wait other_pid st sts =
     (case get_release_seen other_pid st of
        None \<Rightarrow> Bad_access
      | Some seen \<Rightarrow> do_wait_loop other_pid seen 0 sts)"

section \<open>Wire format: the lines written with snprintf and read with sscanf\<close>

text \<open>
  \<^verbatim>\<open>%d\<close> of \<^verbatim>\<open>snprintf\<close>: the decimal digits of the value, with a leading minus sign for
  a negative one. The buffers (\<^verbatim>\<open>MAXLINE\<close> bytes) are far longer than any line written,
  so nothing is cut off.
\<close>

definition digit_char :: "int \<Rightarrow> char" where
  "digit_char k = char_of (48 + k)"

function dec_digits :: "int \<Rightarrow> string" where
  "dec_digits n =
     (if n < 10 then [digit_char n] else dec_digits (n div 10) @ [digit_char (n mod 10)])"
  by pat_completeness auto
termination
  by (relation "measure nat") auto

declare dec_digits.simps [simp del]

definition print_d :: "cint \<Rightarrow> string" where
  "print_d x = (if x <s 0 then CHR ''-'' # dec_digits (- sint x) else dec_digits (sint x))"

text \<open>
  The three lines the program writes: \<^verbatim>\<open>"REQ %d %d\n"\<close>, \<^verbatim>\<open>"ACK %d %d %d %d\n"\<close> and
  \<^verbatim>\<open>"REL %d %d %d\n"\<close>.
\<close>

definition req_line :: "cint \<Rightarrow> cint \<Rightarrow> string" where
  "req_line l p = ''REQ '' @ print_d l @ '' '' @ print_d p @ [CHR 0x0A]"

definition ack_line :: "cint \<Rightarrow> cint \<Rightarrow> cint \<Rightarrow> cint \<Rightarrow> string" where
  "ack_line l p fl fp =
     ''ACK '' @ print_d l @ '' '' @ print_d p @ '' '' @ print_d fl @ '' '' @ print_d fp @ [CHR 0x0A]"

definition rel_line :: "cint \<Rightarrow> cint \<Rightarrow> cint \<Rightarrow> string" where
  "rel_line l rl rp = ''REL '' @ print_d l @ '' '' @ print_d rl @ '' '' @ print_d rp @ [CHR 0x0A]"

text \<open>
  \<^verbatim>\<open>sscanf(line, "%15s %d %d %d %d", type, &a, &b, &c, &d)\<close>. White space is what
  \<^verbatim>\<open>isspace\<close> accepts in the C locale. \<^verbatim>\<open>%15s\<close> skips white space and takes up to 15
  characters that are not white space; it fails only when the input ends first, and then
  \<^verbatim>\<open>sscanf\<close> returns \<^verbatim>\<open>EOF\<close>. \<^verbatim>\<open>%d\<close> skips white space and takes an optional sign and
  the digits that follow; without a digit the conversion fails and \<^verbatim>\<open>sscanf\<close> stops.
  The value is stored the way glibc does it: the digits are converted as by \<^verbatim>\<open>strtol\<close>
  (clamped to the range of \<^verbatim>\<open>long\<close>) and the result is cut to the 32 bits of an \<^verbatim>\<open>int\<close>.
  The argument is the C string, that is the bytes in front of the terminating NUL.
\<close>

definition is_space :: "char \<Rightarrow> bool" where
  "is_space c = (c = CHR '' '' \<or> c = CHR 0x09 \<or> c = CHR 0x0A \<or> c = CHR 0x0B
     \<or> c = CHR 0x0C \<or> c = CHR 0x0D)"

definition is_digit :: "char \<Rightarrow> bool" where
  "is_digit c = (48 \<le> (of_char c :: int) \<and> (of_char c :: int) \<le> 57)"

definition digit_val :: "char \<Rightarrow> int" where
  "digit_val c = of_char c - 48"

definition dec_value :: "string \<Rightarrow> int" where
  "dec_value ds = foldl (\<lambda>acc c. acc * 10 + digit_val c) 0 ds"

definition store_int :: "int \<Rightarrow> cint" where
  "store_int v = word_of_int (max (- (2 ^ 63)) (min (2 ^ 63 - 1) v))"

definition scan_s15 :: "string \<Rightarrow> (string \<times> string) option" where
  "scan_s15 s =
     (let s1 = dropWhile is_space s
      in if s1 = [] then None
         else let tok = take 15 (takeWhile (\<lambda>c. \<not> is_space c) s1)
              in Some (tok, drop (length tok) s1))"

definition scan_d :: "string \<Rightarrow> (cint \<times> string) option" where
  "scan_d s =
     (let s1 = dropWhile is_space s;
          neg = (case s1 of [] \<Rightarrow> False | c # _ \<Rightarrow> c = CHR ''-'');
          s2 = (case s1 of [] \<Rightarrow> [] | c # r \<Rightarrow> if c = CHR ''-'' \<or> c = CHR ''+'' then r else s1);
          ds = takeWhile is_digit s2
      in if ds = [] then None
         else Some (store_int (if neg then - dec_value ds else dec_value ds),
                    dropWhile is_digit s2))"

fun scan_ints :: "nat \<Rightarrow> string \<Rightarrow> cint list" where
  "scan_ints 0 s = []"
| "scan_ints (Suc k) s =
     (case scan_d s of None \<Rightarrow> [] | Some (v, r) \<Rightarrow> v # scan_ints k r)"

text \<open>
  The result of the \<^verbatim>\<open>sscanf\<close> call: \<open>None\<close> when it returns \<^verbatim>\<open>EOF\<close>, otherwise the type
  token and the integers converted, in order; the call then returns 1 plus their number.
\<close>

definition sscanf_line :: "string \<Rightarrow> (string \<times> cint list) option" where
  "sscanf_line line =
     (case scan_s15 line of None \<Rightarrow> None | Some (type, r) \<Rightarrow> Some (type, scan_ints 4 r))"

definition sscanf_result :: "string \<Rightarrow> int" where
  "sscanf_result line =
     (case sscanf_line line of None \<Rightarrow> - 1 | Some (type, vs) \<Rightarrow> 1 + int (length vs))"

section \<open>Inbound messages: process_line\<close>

text \<open>
  \<^verbatim>\<open>int a,b,c,d;\<close> are not initialised. \<^verbatim>\<open>sscanf\<close> assigns the first ones, as many as it
  converts; the others keep whatever the stack held. Those indeterminate values are an
  argument of the model.
\<close>

record locals =
  var_a :: cint
  var_b :: cint
  var_c :: cint
  var_d :: cint

definition arg :: "cint list \<Rightarrow> nat \<Rightarrow> cint \<Rightarrow> cint" where
  "arg vs i indeterminate = (if i < length vs then vs ! i else indeterminate)"

text \<open>
  \<^verbatim>\<open>send_short(pid, msg)\<close> returns at once when \<^verbatim>\<open>pid < 0 || pid >= N\<close>; otherwise it
  opens a connection of its own to the peer, writes the line and closes. What the model
  keeps of it is the line handed to the network, with its destination; a failed
  \<^verbatim>\<open>connect\<close> loses the line without a trace in the sender.
\<close>

definition send_short :: "cint \<Rightarrow> string \<Rightarrow> peer \<Rightarrow> (cint \<times> string) list" where
  "send_short pid msg st = (if pid <s 0 \<or> N st \<le>s pid then [] else [(pid, msg)])"

text \<open>
  \<^verbatim>\<open>broadcast_short\<close>: \<^verbatim>\<open>for (int i = 0; i < N; ++i) { if (i == my_pid) continue;
  send_short(i, msg); }\<close>
\<close>

definition broadcast_short :: "string \<Rightarrow> peer \<Rightarrow> (cint \<times> string) list" where
  "broadcast_short msg st =
     concat (map (\<lambda>i. if of_nat i = my_pid st then [] else send_short (of_nat i) msg st)
              (peer_indices (N st)))"

text \<open>
  \<^verbatim>\<open>process_line\<close>: the state after the line is handled and the lines sent. The only
  test on the result of \<^verbatim>\<open>sscanf\<close> is \<^verbatim>\<open>< 1\<close>; the branches then read \<^verbatim>\<open>a\<close>, \<^verbatim>\<open>b\<close>, \<^verbatim>\<open>c\<close>,
  \<^verbatim>\<open>d\<close> whether or not they were assigned.
\<close>

definition process_line :: "locals \<Rightarrow> string \<Rightarrow> peer \<Rightarrow> (peer \<times> (cint \<times> string) list) option" where
  "process_line u line st =
     (case sscanf_line line of
        None \<Rightarrow> Some (st, [])
      | Some (type, vs) \<Rightarrow>
          let a = arg vs 0 (var_a u); b = arg vs 1 (var_b u);
              c = arg vs 2 (var_c u); d = arg vs 3 (var_d u)
          in if type = ''HELLO'' then Some (st, [])
             else if type = ''REQ'' then
               (let st1 = snd (update_lc_on_receive a st);
                    st2 = queue_insert a b st1;
                    mylc = fst (inc_lc st2);
                    st3 = snd (inc_lc st2)
                in Some (st3, send_short b (ack_line mylc (my_pid st3) a b) st3))
             else if type = ''ACK'' then
               (let st1 = snd (update_lc_on_receive a st)
                in if d = my_pid st1 then map_option (\<lambda>s. (s, [])) (set_ack b a st1)
                   else Some (st1, []))
             else if type = ''REL'' then
               (let st1 = snd (update_lc_on_receive a st);
                    st2 = queue_remove b c st1
                in map_option (\<lambda>s. (s, [])) (inc_release_seen c st2))
             else Some (st, []))"

section \<open>The three stages of do_request\<close>

text \<open>
  \<^verbatim>\<open>do_request\<close> up to the wait loop: \<^verbatim>\<open>my_req_lc = inc_lc()\<close>, the own request is
  queued, the acknowledgement table is reset, \<^verbatim>\<open>"REQ my_req_lc my_pid"\<close> is broadcast.
  The result is \<^verbatim>\<open>my_req_lc\<close>, the new state and the lines sent.
\<close>

definition do_request_begin :: "peer \<Rightarrow> (cint \<times> peer \<times> (cint \<times> string) list) option" where
  "do_request_begin st =
     (let my_req_lc = fst (inc_lc st);
          st1 = snd (inc_lc st);
          st2 = queue_insert my_req_lc (my_pid st1) st1
      in case reset_acks my_req_lc st2 of
           None \<Rightarrow> None
         | Some st3 \<Rightarrow>
             Some (my_req_lc, st3, broadcast_short (req_line my_req_lc (my_pid st3)) st3))"

text \<open>
  One turn of the wait loop, after the \<^verbatim>\<open>usleep\<close>:
  \<^verbatim>\<open>if (!queue_head_is(my_req_lc, my_pid)) continue; if (all_acks_ge(my_req_lc)) break;\<close>
  The result says whether the loop is left, that is whether the lock is taken as granted.
\<close>

definition do_request_poll :: "cint \<Rightarrow> peer \<Rightarrow> bool option" where
  "do_request_poll my_req_lc st =
     (if queue_head_is my_req_lc (my_pid st) st then all_acks_ge my_req_lc st else Some False)"

text \<open>
  The release, once \<^verbatim>\<open>system("./critical ...")\<close> has returned: the own request leaves
  the queue, \<^verbatim>\<open>rel_l = inc_lc()\<close>, \<^verbatim>\<open>"REL rel_l my_req_lc my_pid"\<close> is broadcast and the own
  release is counted.
\<close>

definition do_request_release :: "cint \<Rightarrow> peer \<Rightarrow> (peer \<times> (cint \<times> string) list) option" where
  "do_request_release my_req_lc st =
     (let st1 = queue_remove my_req_lc (my_pid st) st;
          rel_l = fst (inc_lc st1);
          st2 = snd (inc_lc st1);
          out = broadcast_short (rel_line rel_l my_req_lc (my_pid st2)) st2
      in map_option (\<lambda>s. (s, out)) (inc_release_seen (my_pid st2) st2))"

section \<open>N processes and the network between them\<close>

text \<open>
  Where the main thread of a process stands: outside \<^verbatim>\<open>do_request\<close>, in its wait loop
  for the request stamped \<^verbatim>\<open>my_req_lc\<close>, or between the grant and the release, that is
  inside \<^verbatim>\<open>system("./critical ...")\<close>.
\<close>

datatype phase = Idle | Waiting cint | Critical cint

text \<open>
  The processes \<open>0, ..., n - 1\<close> started by run_local.c with the same input file, and
  the lines that were handed to the network and are not yet read. Every line travels on
  a connection of its own (\<^verbatim>\<open>send_short\<close>) and is read by a thread of its own
  (\<^verbatim>\<open>server_thread\<close> starts one \<^verbatim>\<open>conn_reader\<close> per accepted connection), so the lines
  in flight are read in any order: nothing in the program orders two lines of the same
  sender.
\<close>

record world =
  peers :: "peer list"
  phases :: "phase list"
  net :: "(cint \<times> string) list"

definition init_world :: "nat \<Rightarrow> world" where
  "init_world n = \<lparr> peers = map (\<lambda>i. init_peer (of_nat n) (of_nat i)) [0 ..< n],
     phases = replicate n Idle, net = [] \<rparr>"

text \<open>
  What can happen next. \<open>Request p\<close>: the main thread of process \<open>p\<close>, idle, runs the
  next \<^verbatim>\<open>Lock\<close> command of its script up to the wait loop. \<open>Poll p\<close>: one turn of the
  wait loop of \<open>p\<close>. \<open>Release p\<close>: the critical program of \<open>p\<close> ends and \<open>p\<close> releases.
  \<open>Deliver k\<close>: the reader thread holding line number \<open>k\<close> of those in flight runs
  \<^verbatim>\<open>process_line\<close> on it. Each event is one step here; the program takes them in smaller
  steps, each function under its own mutex, so every run of this model is a run of the
  program (and not the other way round).
\<close>

datatype event = Request nat | Poll nat | Release nat | Deliver nat

text \<open>
  The lines in flight are all written by the program itself and carry every field, so
  the indeterminate locals of \<^verbatim>\<open>process_line\<close> are never read when they are handled;
  they are taken as 0.
\<close>

definition no_locals :: locals where
  "no_locals = \<lparr>var_a = 0, var_b = 0, var_c = 0, var_d = 0\<rparr>"

fun step :: "event \<Rightarrow> world \<Rightarrow> world option" where
  "step (Request p) w =
     (if p < length (peers w) \<and> p < length (phases w) then
        (case phases w ! p of
           Idle \<Rightarrow>
             (case do_request_begin (peers w ! p) of
                None \<Rightarrow> None
              | Some (my_req_lc, st, out) \<Rightarrow>
                  Some (w\<lparr>peers := (peers w)[p := st],
                          phases := (phases w)[p := Waiting my_req_lc],
                          net := net w @ out\<rparr>))
         | Waiting _ \<Rightarrow> None
         | Critical _ \<Rightarrow> None)
      else None)"
| "step (Poll p) w =
     (if p < length (peers w) \<and> p < length (phases w) then
        (case phases w ! p of
           Idle \<Rightarrow> None
         | Waiting my_req_lc \<Rightarrow>
             (case do_request_poll my_req_lc (peers w ! p) of
                None \<Rightarrow> None
              | Some granted \<Rightarrow>
                  if granted then Some (w\<lparr>phases := (phases w)[p := Critical my_req_lc]\<rparr>)
                  else Some w)
         | Critical _ \<Rightarrow> None)
      else None)"
| "step (Release p) w =
     (if p < length (peers w) \<and> p < length (phases w) then
        (case phases w ! p of
           Idle \<Rightarrow> None
         | Waiting _ \<Rightarrow> None
         | Critical my_req_lc \<Rightarrow>
             (case do_request_release my_req_lc (peers w ! p) of
                None \<Rightarrow> None
              | Some (st, out) \<Rightarrow>
                  Some (w\<lparr>peers := (peers w)[p := st],
                          phases := (phases w)[p := Idle],
                          net := net w @ out\<rparr>)))
      else None)"
| "step (Deliver k) w =
     (if k < length (net w) then
        (let dest = fst (net w ! k); line = snd (net w ! k)
         in if 0 \<le>s dest \<and> unat dest < length (peers w) then
              (case process_line no_locals line (peers w ! unat dest) of
                 None \<Rightarrow> None
               | Some (st, out) \<Rightarrow>
                   Some (w\<lparr>peers := (peers w)[unat dest := st],
                           net := take k (net w) @ drop (Suc k) (net w) @ out\<rparr>))
            else None)
      else None)"

fun run :: "event list \<Rightarrow> world \<Rightarrow> world option" where
  "run [] w = Some w"
| "run (e # es) w = (case step e w of None \<Rightarrow> None | Some w' \<Rightarrow> run es w')"

text \<open>What an observer sees of a world: phases, clocks, queues and the lines in flight.\<close>

definition in_critical :: "phase \<Rightarrow> bool" where
  "in_critical ph = (case ph of Idle \<Rightarrow> False | Waiting _ \<Rightarrow> False | Critical _ \<Rightarrow> True)"

definition critical_count :: "world \<Rightarrow> nat" where
  "critical_count w = length (filter in_critical (phases w))"

definition queue_keys :: "peer \<Rightarrow> (cint \<times> cint) list" where
  "queue_keys st = map (\<lambda>e. (req_lc e, req_pid e)) (queue_head st)"

definition queue_pids :: "peer \<Rightarrow> cint list" where
  "queue_pids st = map req_pid (queue_head st)"

section \<open>One process: the operations that change its state\<close>

text \<open>
  The three operations of the protocol on one process: a line is handled by
  \<^verbatim>\<open>process_line\<close> (with the indeterminate values of its locals), \<^verbatim>\<open>do_request\<close> starts,
  \<^verbatim>\<open>do_request\<close> releases the request stamped \<^verbatim>\<open>my_req_lc\<close>.
\<close>

datatype action = Handle locals string | Lock_begin | Lock_release cint

definition act :: "action \<Rightarrow> peer \<Rightarrow> peer option" where
  "act a st =
     (case a of
        Handle u line \<Rightarrow> map_option fst (process_line u line st)
      | Lock_begin \<Rightarrow> map_option (\<lambda>r. fst (snd r)) (do_request_begin st)
      | Lock_release my_req_lc \<Rightarrow> map_option fst (do_request_release my_req_lc st))"

text \<open>
  What an observer records after each event of a run: the phases, the clocks, the queues
  and the lines in flight.
\<close>

definition queues_of :: "world \<Rightarrow> (cint \<times> cint) list list" where
  "queues_of w = map queue_keys (peers w)"

definition pids_queued :: "world \<Rightarrow> cint list list" where
  "pids_queued w = map queue_pids (peers w)"

definition observe :: "world \<Rightarrow> phase list \<times> cint list \<times> (cint \<times> cint) list list \<times> (cint \<times> string) list" where
  "observe w = (phases w, map lc (peers w), queues_of w, net w)"

fun trace :: "event list \<Rightarrow> world \<Rightarrow> (phase list \<times> cint list \<times> (cint \<times> cint) list list \<times> (cint \<times> string) list) list" where
  "trace [] w = []"
| "trace (e # es) w = (case step e w of None \<Rightarrow> [] | Some w' \<Rightarrow> observe w' # trace es w')"

text \<open>What follows a number in a line the program writes: not a digit.\<close>

definition ends_number :: "string \<Rightarrow> bool" where
  "ends_number r = (case r of [] \<Rightarrow> True | c # _ \<Rightarrow> \<not> is_digit c)"

section \<open>Signed arithmetic on 32-bit words\<close>

lemmas scmp = word_sless_alt word_sle_eq

lemma sint_cint_bounds: "- 2147483648 \<le> sint (x::cint) \<and> sint x \<le> 2147483647"
  using sint_ge [of x] sint_lt [of x] by simp

lemma sint_INT_MAX: "sint INT_MAX = 2147483647"
  by (simp add: INT_MAX_def)

lemma sint_succ: "x <s INT_MAX \<Longrightarrow> sint (x + 1) = sint x + 1"
proof -
  assume "x <s INT_MAX"
  then have up: "sint x + 1 < 2 ^ 31"
    by (simp add: word_sless_alt sint_INT_MAX)
  have lo: "- (2 ^ 31) \<le> sint x + 1"
    using sint_cint_bounds [of x] by simp
  have "sint (x + 1) = signed_take_bit 31 (sint x + 1)"
    by (simp add: sint_word_add)
  also have "\<dots> = sint x + 1"
    using lo up by (rule signed_take_bit_int_eq_self)
  finally show ?thesis .
qed

lemma sless_succ: "x <s INT_MAX \<Longrightarrow> x <s x + 1"
  by (simp add: word_sless_alt [of x "x + 1"] sint_succ)

lemma sle_succ_mono: "c \<le>s r \<Longrightarrow> r <s INT_MAX \<Longrightarrow> c <s r + 1"
  by (simp add: word_sless_alt [of c "r + 1"] word_sle_eq sint_succ)

section \<open>Clock operations\<close>

text \<open>
  C3, as stated, fails where the increment leaves the range of \<^verbatim>\<open>int\<close>: a tick at
  \<open>INT_MAX\<close> returns \<open>INT_MIN\<close>, which is smaller than the clock was, and so does
  the observation of the remote timestamp \<open>INT_MAX\<close> at clock 7.
\<close>

theorem C3_clock_wraps_at_INT_MAX:
  "lc (snd (inc_lc (init_peer 2 0\<lparr>lc := INT_MAX\<rparr>))) <s lc (init_peer 2 0\<lparr>lc := INT_MAX\<rparr>)
   \<and> fst (inc_lc (init_peer 2 0\<lparr>lc := INT_MAX\<rparr>)) = INT_MIN
   \<and> lc (snd (update_lc_on_receive INT_MAX (init_peer 2 0\<lparr>lc := 7\<rparr>)))
        <s lc (init_peer 2 0\<lparr>lc := 7\<rparr>)
   \<and> fst (update_lc_on_receive INT_MAX (init_peer 2 0\<lparr>lc := 7\<rparr>)) = INT_MIN"
  by (simp add: inc_lc_def update_lc_on_receive_def init_peer_def INT_MAX_def INT_MIN_def scmp)

text \<open>
  C3 (amended): below \<open>INT_MAX\<close>, \<^verbatim>\<open>inc_lc\<close> strictly increases the clock and returns the
  new value. For a remote timestamp \<open>r\<close> below \<open>INT_MAX\<close>, \<^verbatim>\<open>update_lc_on_receive\<close> never
  decreases the clock and returns the new value: when \<open>r \<ge> c\<close> the clock becomes
  \<open>r + 1\<close>, which is the larger of \<open>c\<close> and \<open>r + 1\<close>; when \<open>r < c\<close> the clock stays \<open>c\<close>
  (this last part also at \<open>INT_MAX\<close>). Neither operation touches anything but the clock.
\<close>

theorem C3_clock_operations:
  "(lc st <s INT_MAX \<longrightarrow>
      lc st <s lc (snd (inc_lc st)) \<and> lc (snd (inc_lc st)) = lc st + 1)
   \<and> fst (inc_lc st) = lc (snd (inc_lc st))
   \<and> snd (inc_lc st) = st\<lparr>lc := lc st + 1\<rparr>
   \<and> (r <s INT_MAX \<longrightarrow> lc st \<le>s lc (snd (update_lc_on_receive r st)))
   \<and> (lc st \<le>s r \<and> r <s INT_MAX \<longrightarrow>
        lc (snd (update_lc_on_receive r st)) = r + 1 \<and> lc st <s r + 1)
   \<and> (r <s lc st \<longrightarrow> snd (update_lc_on_receive r st) = st)
   \<and> fst (update_lc_on_receive r st) = lc (snd (update_lc_on_receive r st))
   \<and> snd (update_lc_on_receive r st) = st\<lparr>lc := lc (snd (update_lc_on_receive r st))\<rparr>"
proof -
  have tick: "lc st <s INT_MAX \<Longrightarrow> lc st <s lc st + 1"
    by (rule sless_succ)
  have obs: "lc st \<le>s r \<Longrightarrow> r <s INT_MAX \<Longrightarrow> lc st <s r + 1"
    by (rule sle_succ_mono)
  have below: "r <s lc st \<Longrightarrow> \<not> lc st \<le>s r"
    by (simp add: word_sless_alt word_sle_eq)
  show ?thesis
    using tick obs below
    by (auto simp: inc_lc_def update_lc_on_receive_def Let_def signed.less_imp_le)
qed

theorem C3_clock_operations_witness:
  "lc (snd (inc_lc (init_peer 2 0\<lparr>lc := 4\<rparr>))) = 5
   \<and> fst (inc_lc (init_peer 2 0\<lparr>lc := 4\<rparr>)) = 5
   \<and> fst (update_lc_on_receive 9 (init_peer 2 0\<lparr>lc := 4\<rparr>)) = 10
   \<and> snd (update_lc_on_receive 3 (init_peer 2 0\<lparr>lc := 4\<rparr>)) = init_peer 2 0\<lparr>lc := 4\<rparr>"
proof -
  let ?st = "init_peer 2 0\<lparr>lc := 4\<rparr>"
  have a: "lc ?st <s INT_MAX" by (simp add: init_peer_def INT_MAX_def)
  have b: "lc ?st \<le>s 9 \<and> (9::cint) <s INT_MAX" by (simp add: init_peer_def INT_MAX_def)
  have c: "(3::cint) <s lc ?st" by (simp add: init_peer_def)
  have d: "lc ?st + 1 = 5" by (simp add: init_peer_def)
  show ?thesis
    using C3_clock_operations [of ?st 9] C3_clock_operations [of ?st 3] a b c d by simp
qed

lemma sint_nonneg_uint: "0 \<le>s (x::cint) \<Longrightarrow> sint x = uint x"
proof -
  assume "0 \<le>s x"
  then have nn: "0 \<le> sint x" by (simp add: word_sle_eq)
  have up: "sint x < 2 ^ 32" using sint_lt [of x] by simp
  have e: "(word_of_int (sint x) :: cint) = x" by simp
  have "uint x = uint (word_of_int (sint x) :: cint)" by (simp only: e)
  also have "\<dots> = take_bit 32 (sint x)" by (subst uint_word_of_int_eq) simp
  also have "\<dots> = sint x" using nn up by (simp add: take_bit_int_eq_self)
  finally show ?thesis by simp
qed

lemma sint_of_nat_small: "i < 2147483648 \<Longrightarrow> sint (of_nat i :: cint) = int i"
  by (simp add: signed_of_nat signed_take_bit_int_eq_self)

lemma sint_MAX_PEERS: "sint MAX_PEERS = 128" "unat MAX_PEERS = 128"
  by (simp_all add: MAX_PEERS_def)

lemma in_range_index:
  "\<not> (pid <s 0 \<or> MAX_PEERS \<le>s pid) \<Longrightarrow> 0 \<le>s pid \<and> unat pid < unat MAX_PEERS"
proof -
  assume a: "\<not> (pid <s 0 \<or> MAX_PEERS \<le>s pid)"
  then have nn: "0 \<le>s pid" and lt: "sint pid < 128"
    by (simp_all add: word_sless_alt word_sle_eq sint_MAX_PEERS)
  from nn have "sint pid = uint pid" by (rule sint_nonneg_uint)
  with lt have "uint pid < 128" by simp
  then have "unat pid < 128" by (simp add: unat_eq_nat_uint del: nat_uint_eq)
  with nn show ?thesis by (simp add: sint_MAX_PEERS)
qed

section \<open>Queue: order, insertion, removal, head\<close>

lemma entry_le_refl: "entry_le a a"
  by (simp add: entry_le_def)

lemma entry_le_trans: "entry_le a b \<Longrightarrow> entry_le b c \<Longrightarrow> entry_le a c"
  by (auto simp: entry_le_def)

lemma entry_le_total: "entry_le a b \<or> entry_le b a"
  by (auto simp: entry_le_def)

lemma entry_le_antisym: "entry_le a b \<Longrightarrow> entry_le b a \<Longrightarrow> a = (b::ReqEntry)"
  by (auto simp: entry_le_def)

lemma set_insert_entry: "set (insert_entry l p q) = insert \<lparr>req_lc = l, req_pid = p\<rparr> (set q)"
  by (induction q) auto

lemma mset_insert_entry:
  "mset (insert_entry l p q) = add_mset \<lparr>req_lc = l, req_pid = p\<rparr> (mset q)"
  by (induction q) auto

lemma sorted_insert_entry:
  "sorted_wrt entry_le q \<Longrightarrow> sorted_wrt entry_le (insert_entry l p q)"
proof (induction q)
  case Nil
  then show ?case by simp
next
  case (Cons e es)
  let ?n = "\<lparr>req_lc = l, req_pid = p\<rparr>"
  from Cons.prems have tl: "sorted_wrt entry_le es" and hd: "\<forall>x\<in>set es. entry_le e x"
    by simp_all
  show ?case
  proof (cases "req_lc e <s l \<or> (req_lc e = l \<and> req_pid e <s p)")
    case True
    then have "entry_le e ?n"
      by (auto simp: entry_le_def)
    with True hd tl Cons.IH show ?thesis
      by (auto simp: set_insert_entry)
  next
    case False
    then have ne: "entry_le ?n e"
      using entry_le_total [of ?n e] by (auto simp: entry_le_def)
    then have "\<forall>x\<in>set es. entry_le ?n x"
      using hd entry_le_trans by blast
    with False ne Cons.prems show ?thesis
      by auto
  qed
qed

lemma sorted_remove_entry:
  "sorted_wrt entry_le q \<Longrightarrow> sorted_wrt entry_le (remove_entry l p q)"
proof (induction q)
  case Nil
  then show ?case by simp
next
  case (Cons e es)
  have "set (remove_entry l p es) \<subseteq> set es" for es
    by (induction es) auto
  with Cons show ?case by auto
qed

lemma remove_insert_entry: "remove_entry l p (insert_entry l p q) = q"
  by (induction q) auto

lemma queue_min_in_set: "queue_min q = Some m \<Longrightarrow> m \<in> set q"
  by (induction q arbitrary: m) (auto split: option.splits if_splits)

lemma queue_min_None: "queue_min q = None \<longleftrightarrow> q = []"
  by (cases q) (auto split: option.splits if_splits)

lemma queue_min_least: "queue_min q = Some m \<Longrightarrow> x \<in> set q \<Longrightarrow> entry_le m x"
proof (induction q arbitrary: m)
  case Nil
  then show ?case by simp
next
  case (Cons e es)
  show ?case
  proof (cases "queue_min es")
    case None
    then have "es = []" by (simp add: queue_min_None)
    with Cons.prems None show ?thesis
      by (simp add: entry_le_refl)
  next
    case (Some m')
    note IH = Cons.IH [OF Some]
    show ?thesis
    proof (cases "entry_le e m'")
      case True
      with Some Cons.prems(1) have m: "m = e" by simp
      show ?thesis
      proof (cases "x = e")
        case True
        with m show ?thesis by (simp add: entry_le_refl)
      next
        case False
        with Cons.prems(2) have "x \<in> set es" by simp
        then have "entry_le m' x" by (rule IH)
        with True m show ?thesis using entry_le_trans by blast
      qed
    next
      case False
      with Some Cons.prems(1) have m: "m = m'" by simp
      from False have "entry_le m' e" using entry_le_total by blast
      with m IH Cons.prems(2) show ?thesis by auto
    qed
  qed
qed

lemma queue_min_sorted: "sorted_wrt entry_le (e # es) \<Longrightarrow> queue_min (e # es) = Some e"
  by (auto split: option.splits dest: queue_min_in_set)

text \<open>
  C6: on a queue sorted by ascending timestamp, ties broken by ascending peer id,
  \<^verbatim>\<open>queue_insert\<close> gives a queue that is sorted again and holds exactly the old entries and
  the new one (as a multiset, so with multiplicities), and touches nothing else; and
  \<^verbatim>\<open>queue_head_is\<close> answers true exactly when the queue is not empty and its minimum
  element is the given key.
\<close>

theorem C6_queue_ordering:
  assumes "queue_sorted (queue_head st)"
  shows "queue_sorted (queue_head (queue_insert l p st))
    \<and> mset (queue_head (queue_insert l p st))
        = add_mset \<lparr>req_lc = l, req_pid = p\<rparr> (mset (queue_head st))
    \<and> queue_insert l p st = st\<lparr>queue_head := queue_head (queue_insert l p st)\<rparr>
    \<and> (queue_head_is l' p' st \<longleftrightarrow>
          queue_head st \<noteq> [] \<and> queue_min (queue_head st) = Some \<lparr>req_lc = l', req_pid = p'\<rparr>)"
proof -
  have hd: "queue_head_is l' p' st \<longleftrightarrow>
      queue_head st \<noteq> [] \<and> queue_min (queue_head st) = Some \<lparr>req_lc = l', req_pid = p'\<rparr>"
  proof (cases "queue_head st")
    case Nil
    then show ?thesis by (simp add: queue_head_is_def)
  next
    case (Cons e es)
    with assms have "queue_min (queue_head st) = Some e"
      using queue_min_sorted [of e es] by (simp add: queue_sorted_def)
    with Cons show ?thesis
      by (cases e) (auto simp: queue_head_is_def)
  qed
  from assms show ?thesis
    using hd by (simp add: queue_sorted_def queue_insert_def sorted_insert_entry mset_insert_entry)
qed

theorem C6_queue_ordering_witness:
  "queue_head (queue_insert 3 1 (init_peer 2 0\<lparr>queue_head :=
       [\<lparr>req_lc = 3, req_pid = 0\<rparr>, \<lparr>req_lc = 5, req_pid = 0\<rparr>]\<rparr>))
     = [\<lparr>req_lc = 3, req_pid = 0\<rparr>, \<lparr>req_lc = 3, req_pid = 1\<rparr>, \<lparr>req_lc = 5, req_pid = 0\<rparr>]
   \<and> queue_sorted (queue_head (queue_insert 3 1 (init_peer 2 0\<lparr>queue_head :=
       [\<lparr>req_lc = 3, req_pid = 0\<rparr>, \<lparr>req_lc = 5, req_pid = 0\<rparr>]\<rparr>)))
   \<and> queue_head_is 3 0 (init_peer 2 0\<lparr>queue_head :=
       [\<lparr>req_lc = 3, req_pid = 0\<rparr>, \<lparr>req_lc = 5, req_pid = 0\<rparr>]\<rparr>)"
proof -
  let ?st = "init_peer 2 0\<lparr>queue_head := [\<lparr>req_lc = 3, req_pid = 0\<rparr>, \<lparr>req_lc = 5, req_pid = 0\<rparr>]\<rparr>"
  have s: "queue_sorted (queue_head ?st)"
    by (simp add: queue_sorted_def entry_le_def scmp)
  have m: "queue_head (queue_insert 3 1 ?st)
      = [\<lparr>req_lc = 3, req_pid = 0\<rparr>, \<lparr>req_lc = 3, req_pid = 1\<rparr>, \<lparr>req_lc = 5, req_pid = 0\<rparr>]"
    by (simp add: queue_insert_def scmp)
  have h: "queue_head_is 3 0 ?st"
    by (simp add: queue_head_is_def)
  from C6_queue_ordering [OF s, of 3 1 3 0] m h show ?thesis
    by simp
qed

text \<open>
  C7: \<^verbatim>\<open>queue_insert\<close> followed by \<^verbatim>\<open>queue_remove\<close> of the same key gives back the state
  it started from, entry for entry and in the same order, for every queue (sorted or
  not, empty or not, holding the key already or not): the entries the insertion walks
  past are all smaller than the key, so the first match the removal meets is the entry
  just linked in.
\<close>

theorem C7_queue_round_trip:
  "queue_remove l p (queue_insert l p st) = st"
  by (simp add: queue_remove_def queue_insert_def remove_insert_entry)

section \<open>Acknowledgement and release tables\<close>

lemma arr_read_Some_iff:
  "arr_read xs i = Some v \<longleftrightarrow> 0 \<le>s i \<and> unat i < length xs \<and> v = xs ! unat i"
  by (auto simp: arr_read_def)

lemma arr_read_in_range:
  "\<not> (pid <s 0 \<or> MAX_PEERS \<le>s pid) \<Longrightarrow> length xs = unat MAX_PEERS \<Longrightarrow>
     arr_read xs pid = Some (xs ! unat pid)"
  using in_range_index [of pid] by (simp add: arr_read_def)

lemma arr_write_in_range:
  "\<not> (pid <s 0 \<or> MAX_PEERS \<le>s pid) \<Longrightarrow> length xs = unat MAX_PEERS \<Longrightarrow>
     arr_write xs pid v = Some (xs[unat pid := v])"
  using in_range_index [of pid] by (simp add: arr_write_def)

lemma set_ack_in_range:
  "\<not> (from <s 0 \<or> MAX_PEERS \<le>s from) \<Longrightarrow> arrays_ok st \<Longrightarrow>
     set_ack from v st = Some (st\<lparr>ack_lc := (ack_lc st)[unat from := v]\<rparr>)"
  by (simp add: set_ack_def arrays_ok_def arr_write_in_range)

lemma inc_release_seen_in_range:
  "\<not> (pid <s 0 \<or> MAX_PEERS \<le>s pid) \<Longrightarrow> arrays_ok st \<Longrightarrow>
     inc_release_seen pid st =
       Some (st\<lparr>releases_seen := (releases_seen st)[unat pid := releases_seen st ! unat pid + 1]\<rparr>)"
  by (simp add: inc_release_seen_def arrays_ok_def arr_write_in_range arr_read_in_range)

lemma get_release_seen_in_range:
  "\<not> (pid <s 0 \<or> MAX_PEERS \<le>s pid) \<Longrightarrow> arrays_ok st \<Longrightarrow>
     get_release_seen pid st = Some (releases_seen st ! unat pid)"
  by (simp add: get_release_seen_def arrays_ok_def arr_read_in_range)

lemma get_release_seen_total: "arrays_ok st \<Longrightarrow> \<exists>v. get_release_seen pid st = Some v"
  by (cases "pid <s 0 \<or> MAX_PEERS \<le>s pid")
     (simp_all add: get_release_seen_in_range, simp add: get_release_seen_def)

lemma of_nat_index:
  "i < 2147483648 \<Longrightarrow> 0 \<le>s (of_nat i :: cint) \<and> unat (of_nat i :: cint) = i"
proof -
  assume a: "i < 2147483648"
  then have "sint (of_nat i :: cint) = int i" by (rule sint_of_nat_small)
  then have nn: "0 \<le>s (of_nat i :: cint)" by (simp add: word_sle_eq)
  from a have "unat (of_nat i :: cint) = i" by (simp add: unat_of_nat)
  with nn show ?thesis by simp
qed

lemma acks_ge_loop_in_range:
  "\<forall>i\<in>set is. i < length a \<Longrightarrow> length a \<le> 128 \<Longrightarrow>
     acks_ge_loop a t is = Some (\<forall>i\<in>set is. \<not> a ! i <s t)"
proof (induction "is")
  case Nil
  then show ?case by simp
next
  case (Cons i "is")
  then have "i < 2147483648" by simp
  then have "arr_read a (of_nat i) = Some (a ! i)"
    using Cons.prems of_nat_index [of i] by (simp add: arr_read_def)
  with Cons show ?case by simp
qed

lemma reset_loop_in_range:
  "\<forall>i\<in>set is. i < length a \<Longrightarrow> length a \<le> 128 \<Longrightarrow>
     \<exists>a'. reset_loop a is = Some a' \<and> length a' = length a
        \<and> (\<forall>j < length a. a' ! j = (if j \<in> set is then - 1000000000 else a ! j))"
proof (induction "is" arbitrary: a)
  case Nil
  then show ?case by simp
next
  case (Cons i "is")
  then have "i < 2147483648" by simp
  then have w: "arr_write a (of_nat i) (- 1000000000) = Some (a[i := - 1000000000])"
    using Cons.prems of_nat_index [of i] by (simp add: arr_write_def)
  from Cons.prems have "\<forall>k\<in>set is. k < length (a[i := - 1000000000])"
    and "length (a[i := - 1000000000]) \<le> 128" by simp_all
  from Cons.IH [OF this] obtain a' where
    a': "reset_loop (a[i := - 1000000000]) is = Some a'" "length a' = length a"
      "\<forall>j < length a. a' ! j = (if j \<in> set is then - 1000000000 else a[i := - 1000000000] ! j)"
    by auto
  from a' w show ?case
    by (auto simp: nth_list_update)
qed

lemma peer_indices_set:
  "set (peer_indices n) = {i. int i < sint n}"
  by (auto simp: peer_indices_def)

lemma arrays_ok_init: "arrays_ok (init_peer n p)"
  by (simp add: arrays_ok_def init_peer_def)

lemma all_acks_ge_total:
  "arrays_ok st \<Longrightarrow> N st \<le>s MAX_PEERS \<Longrightarrow>
     all_acks_ge t st = Some (\<forall>i\<in>set (peer_indices (N st)). \<not> ack_lc st ! i <s t)"
proof -
  assume ok: "arrays_ok st" and n: "N st \<le>s MAX_PEERS"
  from n have "sint (N st) \<le> 128" by (simp add: word_sle_eq sint_MAX_PEERS)
  with ok have "\<forall>i\<in>set (peer_indices (N st)). i < length (ack_lc st)"
    by (auto simp: peer_indices_set arrays_ok_def sint_MAX_PEERS)
  moreover from ok have "length (ack_lc st) \<le> 128"
    by (simp add: arrays_ok_def sint_MAX_PEERS)
  ultimately show ?thesis
    unfolding all_acks_ge_def by (rule acks_ge_loop_in_range)
qed

text \<open>
  The three functions that take a peer id guard it: outside \<open>[0, MAX_PEERS)\<close>,
  \<^verbatim>\<open>set_ack\<close> and \<^verbatim>\<open>inc_release_seen\<close> return with the state as it was and
  \<^verbatim>\<open>get_release_seen\<close> returns 0; whatever id they are given they never access \<^verbatim>\<open>ack_lc\<close>
  or \<^verbatim>\<open>releases_seen\<close> outside the array (the result is never \<open>None\<close>) and leave the
  arrays at their declared length. The loop of \<^verbatim>\<open>all_acks_ge\<close> stays inside \<^verbatim>\<open>ack_lc\<close> as
  long as \<open>N \<le> MAX_PEERS\<close>, which \<^verbatim>\<open>main\<close> checks before anything else runs.
\<close>

lemma guarded_table_functions:
  "(pid <s 0 \<or> MAX_PEERS \<le>s pid \<longrightarrow>
      set_ack pid v st = Some st \<and> inc_release_seen pid st = Some st
      \<and> get_release_seen pid st = Some 0)
   \<and> (arrays_ok st \<longrightarrow>
        (\<exists>st'. set_ack pid v st = Some st' \<and> arrays_ok st')
        \<and> (\<exists>st'. inc_release_seen pid st = Some st' \<and> arrays_ok st')
        \<and> (\<exists>n. get_release_seen pid st = Some n))
   \<and> (arrays_ok st \<and> N st \<le>s MAX_PEERS \<longrightarrow> (\<exists>b. all_acks_ge t st = Some b))"
proof -
  have out: "pid <s 0 \<or> MAX_PEERS \<le>s pid \<Longrightarrow>
      set_ack pid v st = Some st \<and> inc_release_seen pid st = Some st
      \<and> get_release_seen pid st = Some 0"
    by (simp add: set_ack_def inc_release_seen_def get_release_seen_def)
  have a: "arrays_ok st \<Longrightarrow> \<exists>st'. set_ack pid v st = Some st' \<and> arrays_ok st'"
    by (cases "pid <s 0 \<or> MAX_PEERS \<le>s pid")
       (simp add: set_ack_def, simp add: set_ack_in_range arrays_ok_def)
  have b: "arrays_ok st \<Longrightarrow> \<exists>st'. inc_release_seen pid st = Some st' \<and> arrays_ok st'"
    by (cases "pid <s 0 \<or> MAX_PEERS \<le>s pid")
       (simp add: inc_release_seen_def, simp add: inc_release_seen_in_range arrays_ok_def)
  have c: "arrays_ok st \<Longrightarrow> \<exists>n. get_release_seen pid st = Some n"
    by (rule get_release_seen_total)
  have d: "arrays_ok st \<and> N st \<le>s MAX_PEERS \<Longrightarrow> \<exists>b. all_acks_ge t st = Some b"
    by (simp add: all_acks_ge_total)
  from out a b c d show ?thesis by blast
qed

text \<open>
  The reset at the start of \<^verbatim>\<open>do_request\<close> stays inside \<^verbatim>\<open>ack_lc\<close> when the process's own
  id is in \<open>[0, MAX_PEERS)\<close> and \<open>N \<le> MAX_PEERS\<close>, and only then is its last write inside.
\<close>

lemma reset_acks_in_bounds:
  assumes ok: "arrays_ok st" and n: "N st \<le>s MAX_PEERS"
  shows "(\<exists>st'. reset_acks t st = Some st') \<longleftrightarrow> \<not> (my_pid st <s 0 \<or> MAX_PEERS \<le>s my_pid st)"
proof -
  from n have "sint (N st) \<le> 128" by (simp add: word_sle_eq sint_MAX_PEERS)
  with ok have "\<forall>i\<in>set (peer_indices (N st)). i < length (ack_lc st)"
    by (auto simp: peer_indices_set arrays_ok_def sint_MAX_PEERS)
  moreover from ok have len: "length (ack_lc st) = 128"
    by (simp add: arrays_ok_def sint_MAX_PEERS)
  ultimately obtain a where a: "reset_loop (ack_lc st) (peer_indices (N st)) = Some a"
      "length a = length (ack_lc st)"
    using reset_loop_in_range [of "peer_indices (N st)" "ack_lc st"] by auto
  show ?thesis
  proof (cases "my_pid st <s 0 \<or> MAX_PEERS \<le>s my_pid st")
    case False
    from a(2) len have "length a = unat MAX_PEERS" by (simp add: sint_MAX_PEERS)
    with False have "arr_write a (my_pid st) t = Some (a[unat (my_pid st) := t])"
      by (rule arr_write_in_range)
    with a(1) False show ?thesis by (simp add: reset_acks_def)
  next
    case True
    have "arr_write a (my_pid st) t = None"
    proof (cases "my_pid st <s 0")
      case True
      then show ?thesis by (simp add: arr_write_def scmp)
    next
      case False
      with True have hi: "128 \<le> sint (my_pid st)" and nn: "0 \<le>s my_pid st"
        by (simp_all add: scmp sint_MAX_PEERS)
      from nn have "sint (my_pid st) = uint (my_pid st)" by (rule sint_nonneg_uint)
      with hi have "128 \<le> uint (my_pid st)" by simp
      then have "128 \<le> unat (my_pid st)" by (simp add: unat_eq_nat_uint del: nat_uint_eq)
      with a(2) len show ?thesis by (simp add: arr_write_def)
    qed
    with a(1) True show ?thesis by (simp add: reset_acks_def)
  qed
qed

text \<open>
  C10 says that no operation on the acknowledgement table or the release table ever
  indexes outside the arrays, whatever id it is given. It fails on the code: the
  functions above test \<^verbatim>\<open>pid < 0 || pid >= MAX_PEERS\<close>, but \<^verbatim>\<open>do_request\<close> assigns
  \<^verbatim>\<open>ack_lc[my_pid] = my_req_lc\<close> without any test, and \<^verbatim>\<open>main\<close> takes \<^verbatim>\<open>my_pid\<close> from
  \<^verbatim>\<open>atoi(argv[1])\<close> and checks the range of \<^verbatim>\<open>N\<close> only. A process started with id 200
  and \<open>N = 2\<close> writes outside \<^verbatim>\<open>ack_lc\<close> (128 entries) at its first \<^verbatim>\<open>Lock\<close>: the loop over
  the peers \<open>0, 1\<close> stays inside, the write at index 200 does not. \<^verbatim>\<open>set_ack\<close>, given the
  same id, returns without touching the table.
\<close>

theorem C10_reset_writes_outside_ack_lc:
  "reset_loop (ack_lc (init_peer 2 200)) (peer_indices (N (init_peer 2 200)))
     = Some (replicate 2 (- 1000000000) @ replicate 126 0)
   \<and> arr_write (replicate 2 (- 1000000000) @ replicate 126 0) (my_pid (init_peer 2 200)) 1 = None
   \<and> reset_acks 1 (init_peer 2 200) = None
   \<and> do_request_begin (init_peer 2 200) = None
   \<and> set_ack 200 1 (init_peer 2 200) = Some (init_peer 2 200)"
  by code_simp

text \<open>
  C4: with \<open>1 \<le> N \<le> MAX_PEERS\<close>, the process's own id in \<open>[0, N)\<close> and a timestamp
  \<open>T \<ge> 1\<close>, the reset at the start of \<^verbatim>\<open>do_request\<close> (every entry of the peers
  \<open>0, ..., N - 1\<close> set to \<open>-1000000000\<close>, then the own entry set to \<open>T\<close>) succeeds, and
  \<^verbatim>\<open>all_acks_ge(T)\<close> right after it returns true when \<open>N = 1\<close> and false otherwise.
\<close>

theorem C4_reset_then_all_acks:
  assumes ok: "arrays_ok st"
    and n1: "1 \<le>s N st" and n2: "N st \<le>s MAX_PEERS"
    and p1: "0 \<le>s my_pid st" and p2: "my_pid st <s N st"
    and t: "1 \<le>s T"
  shows "\<exists>st'. reset_acks T st = Some st' \<and> all_acks_ge T st' = Some (N st = 1)"
proof -
  let ?n = "nat (sint (N st))"
  let ?m = "unat (my_pid st)"
  let ?a = "ack_lc st"
  from n1 n2 have nb: "1 \<le> sint (N st)" "sint (N st) \<le> 128"
    by (simp_all add: word_sle_eq sint_MAX_PEERS)
  from ok have len: "length ?a = 128"
    by (simp add: arrays_ok_def sint_MAX_PEERS)
  have idx: "i \<in> set (peer_indices (N st)) \<longleftrightarrow> i < ?n" for i
    by (simp add: peer_indices_def)
  have n128: "?n \<le> 128" using nb by simp
  have "sint (my_pid st) = uint (my_pid st)"
    using p1 by (rule sint_nonneg_uint)
  moreover from p2 have "sint (my_pid st) < sint (N st)"
    by (simp add: word_sless_alt)
  ultimately have "uint (my_pid st) < sint (N st)" by simp
  then have m: "?m < ?n"
    using nb by (simp add: unat_eq_nat_uint del: nat_uint_eq)
  have "\<forall>i\<in>set (peer_indices (N st)). i < length ?a"
  proof
    fix i assume "i \<in> set (peer_indices (N st))"
    then have "i < ?n" by (simp only: idx)
    with n128 show "i < length ?a" by (simp only: len)
  qed
  moreover have "length ?a \<le> 128" using len by simp
  ultimately obtain a' where a': "reset_loop ?a (peer_indices (N st)) = Some a'"
      "length a' = length ?a"
      "\<forall>j < length ?a. a' ! j = (if j \<in> set (peer_indices (N st)) then - 1000000000 else ?a ! j)"
    using reset_loop_in_range [of "peer_indices (N st)" ?a] by blast
  from m n128 have "?m < 128" by simp
  with len a'(2) have w: "arr_write a' (my_pid st) T = Some (a'[?m := T])"
    using p1 by (simp add: arr_write_def)
  let ?st' = "st\<lparr>ack_lc := a'[?m := T]\<rparr>"
  from a'(1) w have r: "reset_acks T st = Some ?st'"
    by (simp add: reset_acks_def)
  have ok': "arrays_ok ?st'"
    using ok a'(2) by (simp add: arrays_ok_def)
  have "all_acks_ge T ?st' = Some (\<forall>i\<in>set (peer_indices (N ?st')). \<not> ack_lc ?st' ! i <s T)"
    using ok' n2 by (intro all_acks_ge_total) simp_all
  then have g: "all_acks_ge T ?st' = Some (\<forall>i < ?n. \<not> (a'[?m := T]) ! i <s T)"
    by (simp add: idx Ball_def)
  have sent: "(- 1000000000 :: cint) <s T"
    using t by (simp add: scmp)
  have val: "(a'[?m := T]) ! i = (if i = ?m then T else - 1000000000)" if "i < ?n" for i
  proof -
    from that n128 have i: "i < length ?a" by (simp only: len)
    with a'(3) that have "a' ! i = - 1000000000" by (simp add: idx)
    with i a'(2) show ?thesis by (simp add: nth_list_update)
  qed
  have "(\<forall>i < ?n. \<not> (a'[?m := T]) ! i <s T) \<longleftrightarrow> ?n = 1"
  proof
    assume all: "\<forall>i < ?n. \<not> (a'[?m := T]) ! i <s T"
    have e: "i = ?m" if "i < ?n" for i
    proof (rule ccontr)
      assume "i \<noteq> ?m"
      with val [OF that] have "(a'[?m := T]) ! i = - 1000000000" by simp
      moreover from all that have "\<not> (a'[?m := T]) ! i <s T" by blast
      ultimately show False using sent by simp
    qed
    show "?n = 1"
    proof (rule ccontr)
      assume "?n \<noteq> 1"
      with m have "0 < ?n" "1 < ?n" by simp_all
      then have "0 = ?m" "1 = ?m" by (simp_all only: e)
      then show False by simp
    qed
  next
    assume n: "?n = 1"
    show "\<forall>i < ?n. \<not> (a'[?m := T]) ! i <s T"
    proof (intro allI impI)
      fix i assume i: "i < ?n"
      with n m have "i = ?m" by simp
      with val [OF i] show "\<not> (a'[?m := T]) ! i <s T" by simp
    qed
  qed
  moreover have "?n = 1 \<longleftrightarrow> N st = 1"
  proof
    assume "?n = 1"
    then have "sint (N st) = 1" using nb by simp
    then have "word_of_int (sint (N st)) = (word_of_int 1 :: cint)" by simp
    then show "N st = 1" by simp
  next
    assume "N st = 1"
    then show "?n = 1" by simp
  qed
  ultimately show ?thesis
    using r g by simp
qed

theorem C4_reset_then_all_acks_witness:
  "(\<exists>st'. reset_acks 5 (init_peer 3 1) = Some st' \<and> all_acks_ge 5 st' = Some False)
   \<and> (\<exists>st'. reset_acks 5 (init_peer 1 0) = Some st' \<and> all_acks_ge 5 st' = Some True)"
proof -
  have a: "1 \<le>s N (init_peer 3 1) \<and> N (init_peer 3 1) \<le>s MAX_PEERS
      \<and> 0 \<le>s my_pid (init_peer 3 1) \<and> my_pid (init_peer 3 1) <s N (init_peer 3 1)"
    by (simp add: init_peer_def MAX_PEERS_def scmp)
  have b: "1 \<le>s N (init_peer 1 0) \<and> N (init_peer 1 0) \<le>s MAX_PEERS
      \<and> 0 \<le>s my_pid (init_peer 1 0) \<and> my_pid (init_peer 1 0) <s N (init_peer 1 0)"
    by (simp add: init_peer_def MAX_PEERS_def scmp)
  have t: "(1::cint) \<le>s 5" by (simp add: scmp)
  have n: "N (init_peer 3 1) \<noteq> 1" "N (init_peer 1 0) = 1"
    by (simp_all add: init_peer_def)
  from C4_reset_then_all_acks [of "init_peer 3 1" 5] C4_reset_then_all_acks [of "init_peer 1 0" 5]
    a b t n arrays_ok_init [of 3 1] arrays_ok_init [of 1 0]
  show ?thesis by simp
qed

section \<open>Waiting for a release\<close>

lemma do_wait_loop_still:
  "do_wait_loop p b k sts = Still_waiting \<longleftrightarrow>
     (\<forall>s\<in>set sts. \<exists>v. get_release_seen p s = Some v \<and> v \<le>s b)"
  by (induction sts arbitrary: k) (auto split: option.splits simp: scmp)

lemma do_wait_loop_returned_D:
  "do_wait_loop p b k sts = Returned n \<Longrightarrow>
     \<exists>j < length sts. n = Suc (k + j)
       \<and> (\<exists>v. get_release_seen p (sts ! j) = Some v \<and> b <s v)
       \<and> (\<forall>i < j. \<exists>v. get_release_seen p (sts ! i) = Some v \<and> v \<le>s b)"
proof (induction sts arbitrary: k)
  case Nil
  then show ?case by simp
next
  case (Cons s sts)
  from Cons.prems obtain now where now: "get_release_seen p s = Some now"
    by (cases "get_release_seen p s") auto
  show ?case
  proof (cases "b <s now")
    case True
    with now Cons.prems have "n = Suc (k + 0)" by simp
    with now True show ?thesis by auto
  next
    case False
    with now Cons.prems have "do_wait_loop p b (Suc k) sts = Returned n" by simp
    from Cons.IH [OF this] obtain j where j: "j < length sts" "n = Suc (Suc k + j)"
      "\<exists>v. get_release_seen p (sts ! j) = Some v \<and> b <s v"
      "\<forall>i < j. \<exists>v. get_release_seen p (sts ! i) = Some v \<and> v \<le>s b"
      by blast
    have "\<exists>v. get_release_seen p ((s # sts) ! i) = Some v \<and> v \<le>s b" if "i < Suc j" for i
    proof (cases i)
      case 0
      with now False show ?thesis by (simp add: scmp)
    next
      case (Suc i')
      with that j(4) show ?thesis by simp
    qed
    with j(1,2,3) show ?thesis
      by (intro exI [of _ "Suc j"]) simp
  qed
qed

lemma do_wait_loop_returned_I:
  "j < length sts \<Longrightarrow> \<exists>v. get_release_seen p (sts ! j) = Some v \<and> b <s v \<Longrightarrow>
   \<forall>i < j. \<exists>v. get_release_seen p (sts ! i) = Some v \<and> v \<le>s b \<Longrightarrow>
     do_wait_loop p b k sts = Returned (Suc (k + j))"
proof (induction sts arbitrary: k j)
  case Nil
  then show ?case by simp
next
  case (Cons s sts)
  show ?case
  proof (cases j)
    case 0
    with Cons.prems show ?thesis by auto
  next
    case (Suc j')
    from Cons.prems(3) Suc have "\<exists>v. get_release_seen p ((s # sts) ! 0) = Some v \<and> v \<le>s b"
      by blast
    then obtain now where now: "get_release_seen p s = Some now" "\<not> b <s now"
      by (auto simp: scmp)
    have "\<forall>i < j'. \<exists>v. get_release_seen p (sts ! i) = Some v \<and> v \<le>s b"
    proof (intro allI impI)
      fix i assume "i < j'"
      then have "Suc i < j" using Suc by simp
      with Cons.prems(3) have "\<exists>v. get_release_seen p ((s # sts) ! Suc i) = Some v \<and> v \<le>s b"
        by blast
      then show "\<exists>v. get_release_seen p (sts ! i) = Some v \<and> v \<le>s b" by simp
    qed
    moreover from Cons.prems(1,2) Suc have "j' < length sts"
      "\<exists>v. get_release_seen p (sts ! j') = Some v \<and> b <s v" by simp_all
    ultimately have "do_wait_loop p b (Suc k) sts = Returned (Suc (Suc k + j'))"
      by (intro Cons.IH)
    with now Suc show ?thesis by simp
  qed
qed

lemma do_wait_loop_no_fault:
  "\<forall>s\<in>set sts. arrays_ok s \<Longrightarrow> do_wait_loop p b k sts \<noteq> Bad_access"
proof (induction sts arbitrary: k)
  case Nil
  then show ?case by simp
next
  case (Cons s sts)
  then obtain v where "get_release_seen p s = Some v"
    using get_release_seen_total [of s p] by auto
  with Cons show ?case by simp
qed

text \<open>
  C8: \<^verbatim>\<open>do_wait(p)\<close> reads the release counter of \<open>p\<close> once at entry (\<open>seen\<close>, whatever it
  is: releases counted before the call are part of it). It is still waiting after the
  observed polls exactly when every poll read a value \<open>\<le> seen\<close>; and it returns at poll
  \<open>j + 1\<close> exactly when that poll is the first one to read a value strictly greater than
  \<open>seen\<close>, all earlier polls having read values \<open>\<le> seen\<close>. With the arrays at their
  declared length no poll reads outside the release table.
\<close>

theorem C8_wait_strictly_after:
  assumes "arrays_ok st"
  shows "\<exists>seen. get_release_seen p st = Some seen
     \<and> (do_wait p st sts = Still_waiting \<longleftrightarrow>
          (\<forall>s\<in>set sts. \<exists>v. get_release_seen p s = Some v \<and> v \<le>s seen))
     \<and> (\<forall>k. do_wait p st sts = Returned k \<longleftrightarrow>
          (\<exists>j < length sts. k = Suc j
             \<and> (\<exists>v. get_release_seen p (sts ! j) = Some v \<and> seen <s v)
             \<and> (\<forall>i < j. \<exists>v. get_release_seen p (sts ! i) = Some v \<and> v \<le>s seen)))
     \<and> ((\<forall>s\<in>set sts. arrays_ok s) \<longrightarrow> do_wait p st sts \<noteq> Bad_access)"
proof -
  from assms obtain seen where seen: "get_release_seen p st = Some seen"
    using get_release_seen_total by blast
  then have dw: "do_wait p st sts = do_wait_loop p seen 0 sts"
    by (simp add: do_wait_def)
  have r: "do_wait_loop p seen 0 sts = Returned k \<longleftrightarrow>
          (\<exists>j < length sts. k = Suc j
             \<and> (\<exists>v. get_release_seen p (sts ! j) = Some v \<and> seen <s v)
             \<and> (\<forall>i < j. \<exists>v. get_release_seen p (sts ! i) = Some v \<and> v \<le>s seen))" for k
    using do_wait_loop_returned_D [of p seen 0 sts k] do_wait_loop_returned_I [of _ sts p seen 0]
    by auto
  show ?thesis
    using seen r by (simp add: dw do_wait_loop_still do_wait_loop_no_fault)
qed


theorem C8_wait_strictly_after_witness:
  "get_release_seen 0 (init_peer 2 1\<lparr>releases_seen := (releases_seen (init_peer 2 1))[0 := 2]\<rparr>) = Some 2
   \<and> do_wait 0 (init_peer 2 1\<lparr>releases_seen := (releases_seen (init_peer 2 1))[0 := 2]\<rparr>)
        [init_peer 2 1\<lparr>releases_seen := (releases_seen (init_peer 2 1))[0 := 2]\<rparr>,
         init_peer 2 1\<lparr>releases_seen := (releases_seen (init_peer 2 1))[0 := 2]\<rparr>]
       = Still_waiting
   \<and> do_wait 0 (init_peer 2 1\<lparr>releases_seen := (releases_seen (init_peer 2 1))[0 := 2]\<rparr>)
        [init_peer 2 1\<lparr>releases_seen := (releases_seen (init_peer 2 1))[0 := 2]\<rparr>,
         init_peer 2 1\<lparr>releases_seen := (releases_seen (init_peer 2 1))[0 := 3]\<rparr>]
       = Returned 2"
proof -
  let ?s2 = "init_peer 2 1\<lparr>releases_seen := (releases_seen (init_peer 2 1))[0 := 2]\<rparr>"
  let ?s3 = "init_peer 2 1\<lparr>releases_seen := (releases_seen (init_peer 2 1))[0 := 3]\<rparr>"
  have ok: "arrays_ok ?s2"
    by (simp add: arrays_ok_def init_peer_def)
  have e2: "get_release_seen 0 ?s2 = Some 2" and e3: "get_release_seen 0 ?s3 = Some 3"
    by (simp_all add: get_release_seen_def arr_read_def init_peer_def MAX_PEERS_def scmp)
  from C8_wait_strictly_after [OF ok, of 0 "[?s2, ?s2]"] e2
  have w: "do_wait 0 ?s2 [?s2, ?s2] = Still_waiting"
    by (simp add: scmp)
  have "\<exists>j < length [?s2, ?s3]. (2::nat) = Suc j
      \<and> (\<exists>v. get_release_seen 0 ([?s2, ?s3] ! j) = Some v \<and> 2 <s v)
      \<and> (\<forall>i < j. \<exists>v. get_release_seen 0 ([?s2, ?s3] ! i) = Some v \<and> v \<le>s 2)"
    using e2 e3 by (intro exI [of _ 1]) (simp add: scmp)
  with C8_wait_strictly_after [OF ok, of 0 "[?s2, ?s3]"] e2
  have r: "do_wait 0 ?s2 [?s2, ?s3] = Returned 2"
    by simp
  from e2 w r show ?thesis by simp
qed

section \<open>Wire format: what is written is what is read\<close>

lemma digit_char_eqs:
  "digit_char 0 = CHR ''0''" "digit_char 1 = CHR ''1''" "digit_char 2 = CHR ''2''"
  "digit_char 3 = CHR ''3''" "digit_char 4 = CHR ''4''" "digit_char 5 = CHR ''5''"
  "digit_char 6 = CHR ''6''" "digit_char 7 = CHR ''7''" "digit_char 8 = CHR ''8''"
  "digit_char 9 = CHR ''9''"
  by code_simp+

lemma digit_char_props:
  "0 \<le> k \<Longrightarrow> k < 10 \<Longrightarrow>
     is_digit (digit_char k) \<and> digit_val (digit_char k) = k
     \<and> \<not> is_space (digit_char k) \<and> digit_char k \<noteq> CHR ''-'' \<and> digit_char k \<noteq> CHR ''+''"
proof -
  assume "0 \<le> k" "k < 10"
  then have "k = 0 \<or> k = 1 \<or> k = 2 \<or> k = 3 \<or> k = 4 \<or> k = 5 \<or> k = 6 \<or> k = 7 \<or> k = 8 \<or> k = 9"
    by arith
  then show ?thesis
    by (elim disjE) (simp_all add: digit_char_eqs is_digit_def digit_val_def is_space_def)
qed

lemma dec_digits_small: "n < 10 \<Longrightarrow> dec_digits n = [digit_char n]"
  by (subst dec_digits.simps) simp

lemma dec_digits_large:
  "\<not> n < 10 \<Longrightarrow> dec_digits n = dec_digits (n div 10) @ [digit_char (n mod 10)]"
  by (subst dec_digits.simps) simp

lemma dec_digits_all_digits:
  "0 \<le> n \<Longrightarrow> dec_digits n \<noteq> [] \<and> (\<forall>c\<in>set (dec_digits n). is_digit c)"
proof (induction n rule: dec_digits.induct)
  case (1 n)
  show ?case
  proof (cases "n < 10")
    case True
    with "1.prems" show ?thesis
      by (simp add: dec_digits_small digit_char_props)
  next
    case False
    then have "0 \<le> n div 10" by simp
    with False "1.IH" have ih: "\<forall>c\<in>set (dec_digits (n div 10)). is_digit c" by simp
    have "0 \<le> n mod 10" "n mod 10 < 10" by simp_all
    then have "is_digit (digit_char (n mod 10))" by (simp add: digit_char_props)
    with False ih show ?thesis
      by (simp add: dec_digits_large)
  qed
qed

lemma dec_value_snoc: "dec_value (ds @ [c]) = dec_value ds * 10 + digit_val c"
  by (simp add: dec_value_def)

lemma dec_value_dec_digits: "0 \<le> n \<Longrightarrow> dec_value (dec_digits n) = n"
proof (induction n rule: dec_digits.induct)
  case (1 n)
  show ?case
  proof (cases "n < 10")
    case True
    with "1.prems" show ?thesis
      by (simp add: dec_digits_small dec_value_def digit_char_props)
  next
    case False
    then have "0 \<le> n div 10" by simp
    with False "1.IH" have ih: "dec_value (dec_digits (n div 10)) = n div 10" by simp
    have "0 \<le> n mod 10" "n mod 10 < 10" by simp_all
    then have "digit_val (digit_char (n mod 10)) = n mod 10" by (simp add: digit_char_props)
    with False ih show ?thesis
      by (simp add: dec_digits_large dec_value_snoc)
  qed
qed

lemma dec_digits_head:
  "0 \<le> n \<Longrightarrow> \<exists>c cs. dec_digits n = c # cs \<and> is_digit c \<and> \<not> is_space c
     \<and> c \<noteq> CHR ''-'' \<and> c \<noteq> CHR ''+''"
proof (induction n rule: dec_digits.induct)
  case (1 n)
  show ?case
  proof (cases "n < 10")
    case True
    with "1.prems" show ?thesis
      by (simp add: dec_digits_small digit_char_props)
  next
    case False
    then have "0 \<le> n div 10" by simp
    with False "1.IH" obtain c cs where "dec_digits (n div 10) = c # cs" "is_digit c"
      "\<not> is_space c" "c \<noteq> CHR ''-''" "c \<noteq> CHR ''+''" by blast
    with False show ?thesis
      by (simp add: dec_digits_large)
  qed
qed

lemma takeWhile_digits:
  "\<forall>c\<in>set ds. is_digit c \<Longrightarrow> ends_number r \<Longrightarrow>
     takeWhile is_digit (ds @ r) = ds \<and> dropWhile is_digit (ds @ r) = r"
  by (induction ds) (auto simp: ends_number_def split: list.splits)

lemma store_int_sint: "store_int (sint (x::cint)) = x"
proof -
  have "- (2 ^ 63) \<le> sint x" "sint x \<le> 2 ^ 63 - 1"
    using sint_cint_bounds [of x] by simp_all
  then have "max (- (2 ^ 63)) (min (2 ^ 63 - 1) (sint x)) = sint x"
    by simp
  then show ?thesis
    by (simp add: store_int_def)
qed

lemma scan_d_print_d:
  assumes "ends_number r"
  shows "scan_d (CHR '' '' # print_d x @ r) = Some (x, r)"
proof (cases "x <s 0")
  case True
  then have neg: "sint x < 0" by (simp add: scmp)
  let ?ds = "dec_digits (- sint x)"
  from neg have ds: "?ds \<noteq> []" "\<forall>c\<in>set ?ds. is_digit c"
    using dec_digits_all_digits [of "- sint x"] by simp_all
  from neg have v: "dec_value ?ds = - sint x"
    by (simp add: dec_value_dec_digits)
  have s1: "dropWhile is_space (CHR '' '' # print_d x @ r) = CHR ''-'' # ?ds @ r"
    using True by (simp add: print_d_def is_space_def)
  have tw: "takeWhile is_digit (?ds @ r) = ?ds" "dropWhile is_digit (?ds @ r) = r"
    using takeWhile_digits [OF ds(2) assms] by simp_all
  show ?thesis
    unfolding scan_d_def s1 using ds(1) tw v
    by (simp add: store_int_sint)
next
  case False
  then have nn: "0 \<le> sint x" by (simp add: scmp)
  let ?ds = "dec_digits (sint x)"
  from nn have ds: "?ds \<noteq> []" "\<forall>c\<in>set ?ds. is_digit c"
    using dec_digits_all_digits [of "sint x"] by simp_all
  from nn have v: "dec_value ?ds = sint x"
    by (simp add: dec_value_dec_digits)
  from nn obtain c cs where c: "?ds = c # cs" "\<not> is_space c" "c \<noteq> CHR ''-''" "c \<noteq> CHR ''+''"
    using dec_digits_head [of "sint x"] by blast
  have s1: "dropWhile is_space (CHR '' '' # print_d x @ r) = ?ds @ r"
    using False c by (simp add: print_d_def is_space_def)
  have tw: "takeWhile is_digit (?ds @ r) = ?ds" "dropWhile is_digit (?ds @ r) = r"
    using takeWhile_digits [OF ds(2) assms] by simp_all
  have hd: "(case ?ds @ r of [] \<Rightarrow> False | c # _ \<Rightarrow> c = CHR ''-'') = False"
    "(case ?ds @ r of [] \<Rightarrow> [] | c # r' \<Rightarrow> if c = CHR ''-'' \<or> c = CHR ''+'' then r' else ?ds @ r) = ?ds @ r"
    using c by simp_all
  show ?thesis
    unfolding scan_d_def s1 using ds(1) tw v hd
    by (simp add: store_int_sint)
qed


lemma ends_number_simps:
  "ends_number (CHR '' '' # r)" "ends_number [CHR 0x0A]" "ends_number []"
  by (simp_all add: ends_number_def is_digit_def)

lemma scan_d_newline: "scan_d [CHR 0x0A] = None"
  by (simp add: scan_d_def is_space_def)

lemma sscanf_req_line: "sscanf_line (req_line l p) = Some (''REQ'', [l, p])"
proof -
  have s: "scan_s15 (req_line l p) = Some (''REQ'', CHR '' '' # print_d l @ CHR '' '' # print_d p @ [CHR 0x0A])"
    by (simp add: scan_s15_def req_line_def is_space_def)
  have "scan_ints 4 (CHR '' '' # print_d l @ CHR '' '' # print_d p @ [CHR 0x0A]) = [l, p]"
    by (simp add: numeral_eq_Suc scan_d_print_d ends_number_simps scan_d_newline)
  with s show ?thesis
    by (simp add: sscanf_line_def)
qed

lemma sscanf_ack_line: "sscanf_line (ack_line a b c d) = Some (''ACK'', [a, b, c, d])"
proof -
  let ?r = "CHR '' '' # print_d a @ CHR '' '' # print_d b @ CHR '' '' # print_d c
      @ CHR '' '' # print_d d @ [CHR 0x0A]"
  have s: "scan_s15 (ack_line a b c d) = Some (''ACK'', ?r)"
    by (simp add: scan_s15_def ack_line_def is_space_def)
  have "scan_ints 4 ?r = [a, b, c, d]"
    by (simp add: numeral_eq_Suc scan_d_print_d ends_number_simps)
  with s show ?thesis
    by (simp add: sscanf_line_def)
qed

lemma sscanf_rel_line: "sscanf_line (rel_line a b c) = Some (''REL'', [a, b, c])"
proof -
  let ?r = "CHR '' '' # print_d a @ CHR '' '' # print_d b @ CHR '' '' # print_d c @ [CHR 0x0A]"
  have s: "scan_s15 (rel_line a b c) = Some (''REL'', ?r)"
    by (simp add: scan_s15_def rel_line_def is_space_def)
  have "scan_ints 4 ?r = [a, b, c]"
    by (simp add: numeral_eq_Suc scan_d_print_d ends_number_simps scan_d_newline)
  with s show ?thesis
    by (simp add: sscanf_line_def)
qed

lemma process_line_req_line:
  "process_line u (req_line l p) st =
     (let st1 = snd (update_lc_on_receive l st);
          st2 = queue_insert l p st1;
          mylc = fst (inc_lc st2);
          st3 = snd (inc_lc st2)
      in Some (st3, send_short p (ack_line mylc (my_pid st3) l p) st3))"
  by (simp add: process_line_def sscanf_req_line arg_def cong: if_cong)

lemma process_line_ack_line:
  "process_line u (ack_line a b c d) st =
     (let st1 = snd (update_lc_on_receive a st)
      in if d = my_pid st1 then map_option (\<lambda>s. (s, [])) (set_ack b a st1)
         else Some (st1, []))"
  by (simp add: process_line_def sscanf_ack_line arg_def cong: if_cong)

lemma process_line_rel_line:
  "process_line u (rel_line a b c) st =
     (let st1 = snd (update_lc_on_receive a st);
          st2 = queue_remove b c st1
      in map_option (\<lambda>s. (s, [])) (inc_release_seen c st2))"
  by (simp add: process_line_def sscanf_rel_line arg_def cong: if_cong)

section \<open>Acknowledging a request\<close>

lemma sint_INT_MAX_pred: "sint (INT_MAX - 1) = 2147483646"
  by (simp add: INT_MAX_def)

lemma below_INT_MAX_pred:
  assumes "ts <s INT_MAX - 1"
  shows "ts <s INT_MAX" and "ts + 1 <s INT_MAX" and "ts <s ts + 1 + 1"
proof -
  from assms have b: "sint ts < 2147483646"
    by (simp add: word_sless_alt sint_INT_MAX_pred)
  then show 1: "ts <s INT_MAX"
    by (simp add: word_sless_alt sint_INT_MAX)
  then have s1: "sint (ts + 1) = sint ts + 1" by (rule sint_succ)
  with b show 2: "ts + 1 <s INT_MAX"
    by (simp add: word_sless_alt sint_INT_MAX)
  then have "sint (ts + 1 + 1) = sint (ts + 1) + 1" by (rule sint_succ)
  with s1 show "ts <s ts + 1 + 1"
    by (simp add: word_sless_alt)
qed

lemma ack_stamp_exceeds:
  assumes ts: "ts <s INT_MAX - 1" and c: "lc st <s INT_MAX"
  shows "ts <s fst (inc_lc (queue_insert ts pid (snd (update_lc_on_receive ts st))))"
proof (cases "lc st \<le>s ts")
  case True
  with below_INT_MAX_pred(3) [OF ts] show ?thesis
    by (simp add: inc_lc_def queue_insert_def update_lc_on_receive_def)
next
  case False
  then have "ts <s lc st" by (simp add: scmp)
  moreover from c have "lc st <s lc st + 1" by (rule sless_succ)
  ultimately have "ts <s lc st + 1" by (simp add: scmp)
  with False show ?thesis
    by (simp add: inc_lc_def queue_insert_def update_lc_on_receive_def)
qed

text \<open>
  C9 (amended): let a line \<^verbatim>\<open>"REQ ts pid"\<close> be handled by \<^verbatim>\<open>process_line\<close> in a process
  whose clock is below \<open>INT_MAX\<close>, with \<open>ts\<close> below \<open>INT_MAX - 1\<close>. Then the line handed to
  \<^verbatim>\<open>send_short\<close> for \<open>pid\<close> is \<^verbatim>\<open>"ACK mylc my_pid ts pid"\<close> with \<open>mylc\<close> the new clock and
  \<open>mylc > ts\<close>. And when that line is handled by the requester (the process whose id is
  \<open>pid\<close>), the acknowledging process having an id in \<open>[0, MAX_PEERS)\<close>, the requester's
  \<^verbatim>\<open>ack_lc\<close> entry for that process becomes \<open>mylc\<close>, which is not below \<open>ts\<close>: it passes
  the test of \<^verbatim>\<open>all_acks_ge(ts)\<close> for that peer.
\<close>

theorem C9_ack_exceeds_request:
  assumes ts: "ts <s INT_MAX - 1" and c: "lc st <s INT_MAX"
  shows "\<exists>st' mylc.
      process_line u (req_line ts pid) st
        = Some (st', send_short pid (ack_line mylc (my_pid st) ts pid) st')
    \<and> lc st' = mylc \<and> ts <s mylc
    \<and> (\<forall>u' r. arrays_ok r \<and> my_pid r = pid \<and> 0 \<le>s my_pid st \<and> my_pid st <s MAX_PEERS \<longrightarrow>
          (\<exists>r'. process_line u' (ack_line mylc (my_pid st) ts pid) r = Some (r', [])
             \<and> arr_read (ack_lc r') (my_pid st) = Some mylc \<and> \<not> mylc <s ts))"
proof -
  let ?st2 = "queue_insert ts pid (snd (update_lc_on_receive ts st))"
  let ?mylc = "fst (inc_lc ?st2)"
  let ?st3 = "snd (inc_lc ?st2)"
  have pid: "my_pid ?st3 = my_pid st"
    by (simp add: inc_lc_def queue_insert_def update_lc_on_receive_def)
  have p: "process_line u (req_line ts pid) st
      = Some (?st3, send_short pid (ack_line ?mylc (my_pid st) ts pid) ?st3)"
    by (simp add: process_line_req_line Let_def pid)
  have l: "lc ?st3 = ?mylc"
    by (simp add: inc_lc_def)
  have g: "ts <s ?mylc"
    using ts c by (rule ack_stamp_exceeds)
  then have ng: "\<not> ?mylc <s ts"
    by (simp add: scmp)
  have rec: "\<exists>r'. process_line u' (ack_line ?mylc (my_pid st) ts pid) r = Some (r', [])
      \<and> arr_read (ack_lc r') (my_pid st) = Some ?mylc \<and> \<not> ?mylc <s ts"
    if r: "arrays_ok r \<and> my_pid r = pid \<and> 0 \<le>s my_pid st \<and> my_pid st <s MAX_PEERS" for u' r
  proof -
    let ?r1 = "snd (update_lc_on_receive ?mylc r)"
    from r have in_range: "\<not> (my_pid st <s 0 \<or> MAX_PEERS \<le>s my_pid st)"
      by (simp add: scmp)
    from r have ok1: "arrays_ok ?r1" and me: "my_pid ?r1 = pid"
      by (simp_all add: update_lc_on_receive_def arrays_ok_def)
    let ?r' = "?r1\<lparr>ack_lc := (ack_lc ?r1)[unat (my_pid st) := ?mylc]\<rparr>"
    from in_range ok1 have sa: "set_ack (my_pid st) ?mylc ?r1 = Some ?r'"
      by (rule set_ack_in_range)
    from me sa have "process_line u' (ack_line ?mylc (my_pid st) ts pid) r = Some (?r', [])"
      by (simp add: process_line_ack_line Let_def)
    moreover have "arr_read (ack_lc ?r') (my_pid st) = Some ?mylc"
      using in_range_index [OF in_range] ok1 by (simp add: arr_read_def arrays_ok_def)
    ultimately show ?thesis using ng by blast
  qed
  from p l g rec show ?thesis by blast
qed

theorem C9_ack_exceeds_request_witness:
  "map_option snd (process_line no_locals ''REQ 5 1\<newline>'' (init_peer 2 0))
     = Some [(1, ''ACK 7 0 5 1\<newline>'')]
   \<and> (5::cint) <s 7
   \<and> (\<exists>r'. process_line no_locals ''ACK 7 0 5 1\<newline>'' (init_peer 2 1) = Some (r', [])
         \<and> arr_read (ack_lc r') 0 = Some 7)"
proof -
  have h1: "(5::cint) <s INT_MAX - 1" and h2: "lc (init_peer 2 0) <s INT_MAX"
    by (simp_all add: INT_MAX_def init_peer_def scmp)
  have rl: "req_line 5 1 = ''REQ 5 1\<newline>''" and al: "ack_line 7 0 5 1 = ''ACK 7 0 5 1\<newline>''"
    by code_simp+
  have ev: "map_option (\<lambda>r. lc (fst r)) (process_line no_locals ''REQ 5 1\<newline>'' (init_peer 2 0)) = Some 7"
    by code_simp
  have me: "my_pid (init_peer 2 0) = 0" "my_pid (init_peer 2 1) = 1"
    by (simp_all add: init_peer_def)
  have rg: "(0::cint) \<le>s 0 \<and> (0::cint) <s MAX_PEERS"
    by (simp add: MAX_PEERS_def scmp)
  have snd1: "send_short 1 m st' = [(1, m)]" if "N st' = 2" for m st'
    using that by (simp add: send_short_def scmp)
  from C9_ack_exceeds_request [OF h1 h2, of no_locals 1] obtain st' mylc where
    p: "process_line no_locals (req_line 5 1) (init_peer 2 0)
        = Some (st', send_short 1 (ack_line mylc (my_pid (init_peer 2 0)) 5 1) st')"
    and l: "lc st' = mylc" and g: "5 <s mylc"
    and r: "\<forall>u' r. arrays_ok r \<and> my_pid r = 1 \<and> 0 \<le>s my_pid (init_peer 2 0)
            \<and> my_pid (init_peer 2 0) <s MAX_PEERS \<longrightarrow>
          (\<exists>r'. process_line u' (ack_line mylc (my_pid (init_peer 2 0)) 5 1) r = Some (r', [])
             \<and> arr_read (ack_lc r') (my_pid (init_peer 2 0)) = Some mylc \<and> \<not> mylc <s 5)"
    by blast
  from p ev l have m7: "mylc = 7"
    by (simp add: rl)
  have n: "N st' = 2"
  proof -
    have "map_option (\<lambda>r. N (fst r)) (process_line no_locals ''REQ 5 1\<newline>'' (init_peer 2 0)) = Some 2"
      by code_simp
    with p show ?thesis by (simp add: rl)
  qed
  from p m7 n have a: "map_option snd (process_line no_locals ''REQ 5 1\<newline>'' (init_peer 2 0))
     = Some [(1, ''ACK 7 0 5 1\<newline>'')]"
    by (simp add: rl al me snd1)
  from r [rule_format, of "init_peer 2 1" no_locals] arrays_ok_init [of 2 1] rg
  have "\<exists>r'. process_line no_locals ''ACK 7 0 5 1\<newline>'' (init_peer 2 1) = Some (r', [])
         \<and> arr_read (ack_lc r') 0 = Some 7"
    by (simp add: me m7 al)
  with a g m7 show ?thesis by simp
qed

text \<open>
  C9, as stated, fails at the top of the range of \<^verbatim>\<open>int\<close>: on \<^verbatim>\<open>"REQ 2147483647 1"\<close> the
  clock wraps around in \<^verbatim>\<open>update_lc_on_receive\<close>, and the acknowledgement sent back
  carries \<open>-2147483647\<close>, far below the request's timestamp.
\<close>

theorem C9_ack_wraps_below_request:
  "map_option snd (process_line no_locals ''REQ 2147483647 1\<newline>'' (init_peer 2 0))
     = Some [(1, ''ACK -2147483647 0 2147483647 1\<newline>'')]
   \<and> (- 2147483647 :: cint) <s 2147483647"
  by code_simp

section \<open>Lines with missing fields\<close>

lemma sscanf_short_lines:
  "sscanf_line ''REQ 5\<newline>'' = Some (''REQ'', [5])"
  "sscanf_line ''ACK 9 1\<newline>'' = Some (''ACK'', [9, 1])"
  by code_simp+

text \<open>
  C2 says that a line with fewer integer fields than its message type needs leaves the
  clock, the queue and the two tables as they were. It fails on the code.
  \<^verbatim>\<open>process_line\<close> returns early only when \<^verbatim>\<open>sscanf\<close> converts
  nothing at all; a line with a known type and too few numbers is handled like a full
  one, the missing fields being read from the uninitialised locals. On \<^verbatim>\<open>"REQ 5"\<close>
  (\<^verbatim>\<open>sscanf\<close> returns 2) a fresh process moves its clock from 0 to 7 and queues the
  request \<open>(5, b)\<close>, \<open>b\<close> being whatever the local \<^verbatim>\<open>b\<close> held; on \<^verbatim>\<open>"ACK 9 1"\<close>
  (\<^verbatim>\<open>sscanf\<close> returns 3) it moves its clock from 0 to 10.
\<close>

theorem C2_short_lines_change_state:
  "map_option (\<lambda>r. (lc (fst r), queue_keys (fst r))) (process_line u ''REQ 5\<newline>'' (init_peer 2 0))
     = Some (7, [(5, var_b u)])
   \<and> map_option (\<lambda>r. lc (fst r)) (process_line u ''ACK 9 1\<newline>'' (init_peer 2 0)) = Some 10
   \<and> sscanf_result ''REQ 5\<newline>'' = 2 \<and> sscanf_result ''ACK 9 1\<newline>'' = 3"
proof -
  have req: "map_option (\<lambda>r. (lc (fst r), queue_keys (fst r))) (process_line u ''REQ 5\<newline>'' (init_peer 2 0))
     = Some (7, [(5, var_b u)])"
    by (simp add: process_line_def sscanf_short_lines arg_def update_lc_on_receive_def
        queue_insert_def inc_lc_def queue_keys_def init_peer_def scmp Let_def)
  let ?st1 = "snd (update_lc_on_receive 9 (init_peer 2 0))"
  have ok: "arrays_ok ?st1"
    by (simp add: update_lc_on_receive_def arrays_ok_def init_peer_def)
  have l1: "lc ?st1 = 10"
    by (simp add: update_lc_on_receive_def init_peer_def scmp)
  have "\<not> ((1::cint) <s 0 \<or> MAX_PEERS \<le>s 1)"
    by (simp add: MAX_PEERS_def scmp)
  from set_ack_in_range [OF this ok, of 9]
  have sa: "map_option (\<lambda>s. lc s) (set_ack 1 9 ?st1) = Some 10"
    using l1 by simp
  have ack: "map_option (\<lambda>r. lc (fst r)) (process_line u ''ACK 9 1\<newline>'' (init_peer 2 0)) = Some 10"
    using sa l1
    by (simp add: process_line_def sscanf_short_lines arg_def option.map_comp comp_def Let_def
        cong: if_cong)
  have "sscanf_result ''REQ 5\<newline>'' = 2" "sscanf_result ''ACK 9 1\<newline>'' = 3"
    by (simp_all add: sscanf_result_def sscanf_short_lines)
  with req ack show ?thesis by simp
qed

text \<open>
  What is dropped without a trace: a line without any token, and a line whose first token
  is none of \<^verbatim>\<open>REQ\<close>, \<^verbatim>\<open>ACK\<close>, \<^verbatim>\<open>REL\<close>.
\<close>

lemma process_line_ignored:
  "sscanf_line line = None \<Longrightarrow> process_line u line st = Some (st, [])"
  "sscanf_line line = Some (type, vs) \<Longrightarrow> type \<noteq> ''REQ'' \<Longrightarrow> type \<noteq> ''ACK'' \<Longrightarrow>
     type \<noteq> ''REL'' \<Longrightarrow> process_line u line st = Some (st, [])"
  by (simp_all add: process_line_def Let_def)

section \<open>What an action does to the queue\<close>

lemma queue_head_clock [simp]:
  "queue_head (snd (update_lc_on_receive r st)) = queue_head st"
  "queue_head (snd (inc_lc st)) = queue_head st"
  by (simp_all add: update_lc_on_receive_def inc_lc_def)

lemma queue_head_set_ack: "set_ack from v st = Some st' \<Longrightarrow> queue_head st' = queue_head st"
  by (auto simp: set_ack_def split: if_splits)

lemma queue_head_inc_release_seen:
  "inc_release_seen pid st = Some st' \<Longrightarrow> queue_head st' = queue_head st"
  by (auto simp: inc_release_seen_def split: if_splits option.splits)

lemma queue_head_reset_acks: "reset_acks t st = Some st' \<Longrightarrow> queue_head st' = queue_head st"
  by (auto simp: reset_acks_def split: option.splits)

lemma my_pid_clock [simp]:
  "my_pid (snd (update_lc_on_receive r st)) = my_pid st"
  "my_pid (snd (inc_lc st)) = my_pid st"
  by (simp_all add: update_lc_on_receive_def inc_lc_def)

lemma process_line_queue:
  assumes "process_line u line st = Some (st', out)"
  shows "queue_head st' = queue_head st
    \<or> (\<exists>l p. queue_head st' = insert_entry l p (queue_head st))
    \<or> (\<exists>l p. queue_head st' = remove_entry l p (queue_head st))"
proof (cases "sscanf_line line")
  case None
  with assms show ?thesis by (simp add: process_line_def)
next
  case (Some tv)
  obtain type vs where tv: "tv = (type, vs)" by (cases tv)
  consider (req) "type = ''REQ''" | (ack) "type = ''ACK''" | (rel) "type = ''REL''"
    | (other) "type \<noteq> ''REQ''" "type \<noteq> ''ACK''" "type \<noteq> ''REL''" by blast
  then show ?thesis
  proof cases
    case req
    with assms Some tv have "queue_head st'
        = insert_entry (arg vs 0 (var_a u)) (arg vs 1 (var_b u)) (queue_head st)"
      by (auto simp: process_line_def Let_def queue_insert_def)
    then show ?thesis by blast
  next
    case ack
    with assms Some tv show ?thesis
      by (auto simp: process_line_def Let_def split: if_splits dest!: queue_head_set_ack)
  next
    case rel
    let ?b = "arg vs 1 (var_b u)" and ?c = "arg vs 2 (var_c u)"
    let ?st2 = "queue_remove ?b ?c (snd (update_lc_on_receive (arg vs 0 (var_a u)) st))"
    from rel assms Some tv have "inc_release_seen ?c ?st2 = Some st'"
      by (auto simp: process_line_def Let_def)
    then have "queue_head st' = queue_head ?st2"
      by (rule queue_head_inc_release_seen)
    then have "queue_head st' = remove_entry ?b ?c (queue_head st)"
      by (simp add: queue_remove_def)
    then show ?thesis by blast
  next
    case other
    with assms Some tv show ?thesis
      using process_line_ignored(2) [of line type vs u st] by simp
  qed
qed

lemma act_queue:
  assumes "act a st = Some st'"
  shows "queue_head st' = queue_head st
    \<or> (\<exists>l p. queue_head st' = insert_entry l p (queue_head st))
    \<or> (\<exists>l p. queue_head st' = remove_entry l p (queue_head st))"
proof (cases a)
  case (Handle u line)
  with assms obtain out where "process_line u line st = Some (st', out)"
    by (auto simp: act_def)
  with Handle show ?thesis
    using process_line_queue by blast
next
  case Lock_begin
  with assms obtain t out where "do_request_begin st = Some (t, st', out)"
    by (auto simp: act_def)
  then have "queue_head st' = insert_entry (fst (inc_lc st)) (my_pid st) (queue_head st)"
    by (auto simp: do_request_begin_def Let_def queue_insert_def split: option.splits
        dest!: queue_head_reset_acks)
  then show ?thesis by blast
next
  case (Lock_release t)
  with assms obtain out where "do_request_release t st = Some (st', out)"
    by (auto simp: act_def)
  then have "queue_head st' = remove_entry t (my_pid st) (queue_head st)"
    by (auto simp: do_request_release_def Let_def queue_remove_def
        dest!: queue_head_inc_release_seen)
  then show ?thesis by blast
qed

lemma set_remove_entry: "set (remove_entry l p q) \<subseteq> set q"
  by (induction q) auto

section \<open>What every action of a process preserves\<close>

text \<open>
  The queue stays sorted and the arrays keep their declared length, whatever line is
  handled and whatever stage of the lock cycle runs: the hypotheses of the theorems on
  the queue and on the tables hold in every state a process reaches.
\<close>

lemma act_keeps_queue_sorted:
  assumes "queue_sorted (queue_head st)" and "act a st = Some st'"
  shows "queue_sorted (queue_head st')"
  using act_queue [OF assms(2)] assms(1)
  by (auto simp: queue_sorted_def sorted_insert_entry sorted_remove_entry)

lemma arr_write_length: "arr_write xs i v = Some ys \<Longrightarrow> length ys = length xs"
  by (auto simp: arr_write_def split: if_splits)

lemma reset_loop_length: "reset_loop a is = Some a' \<Longrightarrow> length a' = length a"
  by (induction "is" arbitrary: a) (auto split: option.splits dest: arr_write_length)

lemma arrays_ok_clock [simp]:
  "arrays_ok (snd (update_lc_on_receive r st)) = arrays_ok st"
  "arrays_ok (snd (inc_lc st)) = arrays_ok st"
  "arrays_ok (queue_insert l p st) = arrays_ok st"
  "arrays_ok (queue_remove l p st) = arrays_ok st"
  by (simp_all add: update_lc_on_receive_def inc_lc_def queue_insert_def queue_remove_def
      arrays_ok_def)

lemma set_ack_arrays_ok:
  assumes "arrays_ok st" and "set_ack from v st = Some st'"
  shows "arrays_ok st'"
proof (cases "from <s 0 \<or> MAX_PEERS \<le>s from")
  case True
  with assms show ?thesis by (simp add: set_ack_def)
next
  case False
  with assms(2) obtain a where "arr_write (ack_lc st) from v = Some a" "st' = st\<lparr>ack_lc := a\<rparr>"
    by (auto simp: set_ack_def)
  with assms(1) arr_write_length [of "ack_lc st" "from" v a] show ?thesis
    by (simp add: arrays_ok_def)
qed

lemma inc_release_seen_arrays_ok:
  assumes "arrays_ok st" and "inc_release_seen pid st = Some st'"
  shows "arrays_ok st'"
proof (cases "pid <s 0 \<or> MAX_PEERS \<le>s pid")
  case True
  with assms show ?thesis by (simp add: inc_release_seen_def)
next
  case False
  with assms(2) obtain w r where "arr_write (releases_seen st) pid w = Some r"
    "st' = st\<lparr>releases_seen := r\<rparr>"
    by (auto simp: inc_release_seen_def split: option.splits)
  with assms(1) arr_write_length [of "releases_seen st" pid w r] show ?thesis
    by (simp add: arrays_ok_def)
qed

lemma reset_acks_arrays_ok:
  assumes "arrays_ok st" and "reset_acks t st = Some st'"
  shows "arrays_ok st'"
proof -
  from assms(2) obtain a a' where a: "reset_loop (ack_lc st) (peer_indices (N st)) = Some a"
    "arr_write a (my_pid st) t = Some a'" "st' = st\<lparr>ack_lc := a'\<rparr>"
    by (auto simp: reset_acks_def split: option.splits)
  from a(1) have "length a = length (ack_lc st)" by (rule reset_loop_length)
  moreover from a(2) have "length a' = length a" by (rule arr_write_length)
  ultimately show ?thesis
    using assms(1) a(3) by (simp add: arrays_ok_def)
qed

lemma process_line_arrays_ok:
  assumes "arrays_ok st" and "process_line u line st = Some (st', out)"
  shows "arrays_ok st'"
proof (cases "sscanf_line line")
  case None
  with assms show ?thesis by (simp add: process_line_def)
next
  case (Some tv)
  obtain type vs where tv: "tv = (type, vs)" by (cases tv)
  let ?a = "arg vs 0 (var_a u)" and ?b = "arg vs 1 (var_b u)"
  let ?c = "arg vs 2 (var_c u)" and ?d = "arg vs 3 (var_d u)"
  let ?st1 = "snd (update_lc_on_receive ?a st)"
  from assms(1) have ok1: "arrays_ok ?st1" by simp
  consider (req) "type = ''REQ''" | (ack) "type = ''ACK''" | (rel) "type = ''REL''"
    | (other) "type \<noteq> ''REQ''" "type \<noteq> ''ACK''" "type \<noteq> ''REL''" by blast
  then show ?thesis
  proof cases
    case req
    with assms Some tv show ?thesis
      by (auto simp: process_line_def Let_def)
  next
    case ack
    show ?thesis
    proof (cases "?d = my_pid ?st1")
      case True
      with ack assms(2) Some tv have "set_ack ?b ?a ?st1 = Some st'"
        by (auto simp: process_line_def Let_def)
      with ok1 show ?thesis by (rule set_ack_arrays_ok)
    next
      case False
      with ack assms(2) Some tv have "st' = ?st1"
        by (auto simp: process_line_def Let_def)
      with ok1 show ?thesis by simp
    qed
  next
    case rel
    with assms(2) Some tv have "inc_release_seen ?c (queue_remove ?b ?c ?st1) = Some st'"
      by (auto simp: process_line_def Let_def)
    moreover from ok1 have "arrays_ok (queue_remove ?b ?c ?st1)" by simp
    ultimately show ?thesis using inc_release_seen_arrays_ok by blast
  next
    case other
    with assms Some tv show ?thesis
      using process_line_ignored(2) [of line type vs u st] by simp
  qed
qed

lemma act_keeps_arrays_ok:
  assumes "arrays_ok st" and "act a st = Some st'"
  shows "arrays_ok st'"
proof (cases a)
  case (Handle u line)
  with assms(2) obtain out where "process_line u line st = Some (st', out)"
    by (auto simp: act_def)
  with assms(1) show ?thesis by (rule process_line_arrays_ok)
next
  case Lock_begin
  let ?st2 = "queue_insert (fst (inc_lc st)) (my_pid (snd (inc_lc st))) (snd (inc_lc st))"
  from Lock_begin assms(2) have "reset_acks (fst (inc_lc st)) ?st2 = Some st'"
    by (auto simp: act_def do_request_begin_def Let_def split: option.splits)
  moreover from assms(1) have "arrays_ok ?st2" by simp
  ultimately show ?thesis using reset_acks_arrays_ok by blast
next
  case (Lock_release t)
  let ?st2 = "snd (inc_lc (queue_remove t (my_pid st) st))"
  from Lock_release assms(2) have "inc_release_seen (my_pid ?st2) ?st2 = Some st'"
    by (auto simp: act_def do_request_release_def Let_def)
  moreover from assms(1) have "arrays_ok ?st2" by simp
  ultimately show ?thesis using inc_release_seen_arrays_ok by blast
qed

section \<open>One queued request per peer\<close>

text \<open>
  C5 says that, every peer having at most one outstanding request at a time, the queue
  of a process holds at most one entry per peer id in every state the protocol reaches.
  It fails on the code. Two processes, started from \<open>init_world 2\<close>; process 0 requests,
  is acknowledged, enters, releases and requests again, so it has one outstanding
  request at any time. Its new \<^verbatim>\<open>REQ\<close> line is read by process 1 before the \<^verbatim>\<open>REL\<close> line
  of the first request, which was sent earlier but travels on another connection and is
  read by another thread. Process 1 then holds two requests of process 0 in its queue,
  \<open>(1, 0)\<close> and \<open>(6, 0)\<close>.
\<close>

theorem C5_two_requests_of_one_peer_queued:
  "map_option pids_queued
     (run [Request 0, Deliver 0, Deliver 0, Poll 0, Release 0, Request 0, Deliver 1] (init_world 2))
   = Some [[0], [0, 0]]"
  by code_simp

text \<open>That run, event by event: phases, clocks, queues and the lines in flight.\<close>

lemma trace_request_overtakes_release:
  "trace [Request 0, Deliver 0, Deliver 0, Poll 0, Release 0, Request 0, Deliver 1] (init_world 2)
   = [([Waiting 1, Idle], [1, 0], [[(1, 0)], []], [(1, ''REQ 1 0\<newline>'')]),
      ([Waiting 1, Idle], [1, 3], [[(1, 0)], [(1, 0)]], [(0, ''ACK 3 1 1 0\<newline>'')]),
      ([Waiting 1, Idle], [4, 3], [[(1, 0)], [(1, 0)]], []),
      ([Critical 1, Idle], [4, 3], [[(1, 0)], [(1, 0)]], []),
      ([Idle, Idle], [5, 3], [[], [(1, 0)]], [(1, ''REL 5 1 0\<newline>'')]),
      ([Waiting 6, Idle], [6, 3], [[(6, 0)], [(1, 0)]],
         [(1, ''REL 5 1 0\<newline>''), (1, ''REQ 6 0\<newline>'')]),
      ([Waiting 6, Idle], [6, 8], [[(6, 0)], [(1, 0), (6, 0)]],
         [(1, ''REL 5 1 0\<newline>''), (0, ''ACK 8 1 6 0\<newline>'')])]"
  by code_simp

text \<open>
  When process 1 reads the two lines in the order they were sent, its queue holds one
  request of process 0: it is the order of reading, which the program leaves open, that
  breaks the invariant.
\<close>

lemma queues_when_release_is_read_first:
  "map_option pids_queued
     (run [Request 0, Deliver 0, Deliver 0, Poll 0, Release 0, Request 0, Deliver 0, Deliver 0]
        (init_world 2))
   = Some [[0], [0]]"
  by code_simp

section \<open>Mutual exclusion\<close>

text \<open>
  A run of two processes, both with \<^verbatim>\<open>Lock\<close> in their script. Both request with
  timestamp 1. Process 0 reads the request of process 1 and acknowledges it with
  timestamp 3. Process 1 reads that acknowledgement before the request of process 0,
  which was sent earlier but on another connection: its queue holds its own request
  only, its table holds 3 for process 0, and its wait loop ends. Then it reads the
  request of process 0 and acknowledges it, and the wait loop of process 0, whose request
  \<open>(1, 0)\<close> is first in its queue, ends too.
\<close>

lemma trace_ack_overtakes_request:
  "trace [Request 0, Request 1, Deliver 1, Deliver 1, Poll 1, Deliver 0, Deliver 0, Poll 0]
     (init_world 2)
   = [([Waiting 1, Idle], [1, 0], [[(1, 0)], []], [(1, ''REQ 1 0\<newline>'')]),
      ([Waiting 1, Waiting 1], [1, 1], [[(1, 0)], [(1, 1)]],
         [(1, ''REQ 1 0\<newline>''), (0, ''REQ 1 1\<newline>'')]),
      ([Waiting 1, Waiting 1], [3, 1], [[(1, 0), (1, 1)], [(1, 1)]],
         [(1, ''REQ 1 0\<newline>''), (1, ''ACK 3 0 1 1\<newline>'')]),
      ([Waiting 1, Waiting 1], [3, 4], [[(1, 0), (1, 1)], [(1, 1)]], [(1, ''REQ 1 0\<newline>'')]),
      ([Waiting 1, Critical 1], [3, 4], [[(1, 0), (1, 1)], [(1, 1)]], [(1, ''REQ 1 0\<newline>'')]),
      ([Waiting 1, Critical 1], [3, 5], [[(1, 0), (1, 1)], [(1, 0), (1, 1)]],
         [(0, ''ACK 5 1 1 0\<newline>'')]),
      ([Waiting 1, Critical 1], [6, 5], [[(1, 0), (1, 1)], [(1, 0), (1, 1)]], []),
      ([Critical 1, Critical 1], [6, 5], [[(1, 0), (1, 1)], [(1, 0), (1, 1)]], [])]"
  by code_simp

text \<open>
  C1 says that in every world reached by a run from \<open>init_world n\<close> at most one process
  is between the grant test and the release (\<open>critical_count\<close> is at most 1). It fails
  on the code: at the end of the run above both processes are in that phase, that is
  both are running the critical program.
\<close>

theorem C1_two_peers_in_critical:
  "map_option phases
     (run [Request 0, Request 1, Deliver 1, Deliver 1, Poll 1, Deliver 0, Deliver 0, Poll 0]
        (init_world 2))
   = Some [Critical 1, Critical 1]
   \<and> map_option critical_count
     (run [Request 0, Request 1, Deliver 1, Deliver 1, Poll 1, Deliver 0, Deliver 0, Poll 0]
        (init_world 2))
   = Some 2"
  by code_simp

end
